theory Spec2Isabelle
  imports Complex_Main "HOL-Library.Log_Nat" "HOL-Library.Sublist"
begin

section \<open>Unicode text and the regular expressions of \<open>Detector.py\<close>\<close>

text \<open>
  A Python \<open>str\<close> is a sequence of Unicode code points; \<open>len\<close> and the \<open>re\<close> module
  count and match code points. A text is therefore a list of code points, written as
  natural numbers (\<open>0x5605\<close> is U+5605).
\<close>

type_synonym ustring = "nat list"

text \<open>
  The patterns of the source use literals, character classes \<open>[...]\<close> and \<open>[^...]\<close> with
  single characters and ranges, sequences, alternation \<open>|\<close>, capturing groups \<open>(...)\<close>,
  and the greedy postfix operators \<open>*\<close> and \<open>?\<close>, which the source applies to
  character classes only.
\<close>

datatype citem = Ch nat | Rng nat nat

datatype cset = OneOf "citem list" | NoneOf "citem list"

datatype rx =
    Lit nat
  | Cls cset
  | Star cset
  | Opt cset
  | Seq "rx list"
  | Alt "rx list"
  | Grp rx

fun in_citem :: "nat \<Rightarrow> citem \<Rightarrow> bool" where
  "in_citem c (Ch d) = (c = d)"
| "in_citem c (Rng lo hi) = (lo \<le> c \<and> c \<le> hi)"

fun in_cset :: "cset \<Rightarrow> nat \<Rightarrow> bool" where
  "in_cset (OneOf items) c = list_ex (in_citem c) items"
| "in_cset (NoneOf items) c = (\<not> list_ex (in_citem c) items)"

text \<open>
  \<open>star_rests cs s\<close> lists what can remain of \<open>s\<close> after \<open>[cs]*\<close>, in the order the
  backtracking matcher of \<open>re\<close> tries them: the longest run first, then one character
  less each time, down to the empty run.
\<close>

fun star_rests :: "cset \<Rightarrow> ustring \<Rightarrow> ustring list" where
  "star_rests cs [] = [[]]"
| "star_rests cs (x # xs) = (if in_cset cs x then star_rests cs xs @ [x # xs] else [x # xs])"

text \<open>
  \<open>rx_match r s\<close> lists every way \<open>r\<close> matches a prefix of \<open>s\<close>, in the priority order of
  the backtracking matcher (an earlier alternative before a later one, a longer greedy
  run before a shorter one): each result is the text captured by the groups that took
  part, concatenated in order, and the rest of \<open>s\<close> after the match. The head of the
  list is the match \<open>re\<close> reports.
\<close>

fun rx_match :: "rx \<Rightarrow> ustring \<Rightarrow> (ustring \<times> ustring) list"
  and rx_match_seq :: "rx list \<Rightarrow> ustring \<Rightarrow> (ustring \<times> ustring) list"
  and rx_match_alt :: "rx list \<Rightarrow> ustring \<Rightarrow> (ustring \<times> ustring) list" where
  "rx_match (Lit c) s = (case s of [] \<Rightarrow> [] | x # xs \<Rightarrow> if x = c then [([], xs)] else [])"
| "rx_match (Cls cs) s =
     (case s of [] \<Rightarrow> [] | x # xs \<Rightarrow> if in_cset cs x then [([], xs)] else [])"
| "rx_match (Star cs) s = map (Pair []) (star_rests cs s)"
| "rx_match (Opt cs) s =
     (case s of [] \<Rightarrow> [([], [])]
      | x # xs \<Rightarrow> if in_cset cs x then [([], xs), ([], x # xs)] else [([], x # xs)])"
| "rx_match (Seq rs) s = rx_match_seq rs s"
| "rx_match (Alt rs) s = rx_match_alt rs s"
| "rx_match (Grp r) s = map (\<lambda>(g, t). (take (length s - length t) s, t)) (rx_match r s)"
| "rx_match_seq [] s = [([], s)]"
| "rx_match_seq (r # rs) s =
     concat (map (\<lambda>(g, t). map (\<lambda>(g', u). (g @ g', u)) (rx_match_seq rs t)) (rx_match r s))"
| "rx_match_alt [] s = []"
| "rx_match_alt (r # rs) s = rx_match r s @ rx_match_alt rs s"

text \<open>
  One pass of \<open>re\<close> over a text, as \<open>finditer\<close>, \<open>findall\<close>, \<open>sub\<close> and \<open>split\<close> all
  make it: at each position the pattern is tried; a match is recorded with its text and
  its captured text and the scan goes on after it; otherwise the character is passed
  over. No pattern of the source matches the empty text, so a match that consumes
  nothing is treated as no match.
\<close>

datatype tok = Plain nat | Match ustring ustring

function re_scan :: "rx \<Rightarrow> ustring \<Rightarrow> tok list" where
  "re_scan r [] = []"
| "re_scan r (x # xs) =
     (case rx_match r (x # xs) of
        [] \<Rightarrow> Plain x # re_scan r xs
      | (g, t) # _ \<Rightarrow>
          if length t < length (x # xs)
          then Match (take (length (x # xs) - length t) (x # xs)) g # re_scan r t
          else Plain x # re_scan r xs)"
  by pat_completeness auto
termination
  by (relation "measure (\<lambda>(r, s). length s)") auto

fun tok_groups :: "tok list \<Rightarrow> ustring list" where
  "tok_groups [] = []"
| "tok_groups (Plain c # ts) = tok_groups ts"
| "tok_groups (Match w g # ts) = g # tok_groups ts"

fun tok_texts :: "tok list \<Rightarrow> ustring list" where
  "tok_texts [] = []"
| "tok_texts (Plain c # ts) = tok_texts ts"
| "tok_texts (Match w g # ts) = w # tok_texts ts"

fun tok_text :: "tok list \<Rightarrow> ustring" where
  \<comment> \<open>the text a scan has read\<close>
  "tok_text [] = []"
| "tok_text (Plain c # ts) = c # tok_text ts"
| "tok_text (Match w g # ts) = w @ tok_text ts"

fun tok_count :: "tok list \<Rightarrow> nat" where
  "tok_count [] = 0"
| "tok_count (Plain c # ts) = tok_count ts"
| "tok_count (Match w g # ts) = Suc (tok_count ts)"

fun tok_sub :: "ustring \<Rightarrow> tok list \<Rightarrow> ustring" where
  "tok_sub repl [] = []"
| "tok_sub repl (Plain c # ts) = c # tok_sub repl ts"
| "tok_sub repl (Match w g # ts) = repl @ tok_sub repl ts"

text \<open>\<open>tok_split cur ts\<close>: the pieces between matches; \<open>cur\<close> is the piece being read, reversed.\<close>

fun tok_split :: "ustring \<Rightarrow> tok list \<Rightarrow> ustring list" where
  "tok_split cur [] = [rev cur]"
| "tok_split cur (Plain c # ts) = tok_split (c # cur) ts"
| "tok_split cur (Match w g # ts) = rev cur # tok_split [] ts"

fun has_group :: "rx \<Rightarrow> bool" where
  "has_group (Grp r) = True"
| "has_group (Seq rs) = list_ex has_group rs"
| "has_group (Alt rs) = list_ex has_group rs"
| "has_group _ = False"

definition re_findall :: "rx \<Rightarrow> ustring \<Rightarrow> ustring list" where
  \<comment> \<open>\<open>r.findall(text)\<close> for a pattern with at most one group: the group's text if there
     is a group, the text of the match otherwise\<close>
  "re_findall r s = (if has_group r then tok_groups (re_scan r s) else tok_texts (re_scan r s))"

definition re_findall_groups :: "rx \<Rightarrow> ustring \<Rightarrow> ustring list" where
  \<comment> \<open>\<open>["".join(s) for s in re.findall(r, text)]\<close> for a pattern with several groups\<close>
  "re_findall_groups r s = tok_groups (re_scan r s)"

definition re_count :: "rx \<Rightarrow> ustring \<Rightarrow> nat" where
  \<comment> \<open>\<open>len(r.findall(text))\<close> and \<open>sum(1 for _ in r.finditer(text))\<close>\<close>
  "re_count r s = tok_count (re_scan r s)"

definition re_sub :: "rx \<Rightarrow> ustring \<Rightarrow> ustring \<Rightarrow> ustring" where
  \<comment> \<open>\<open>re.sub(r, repl, text)\<close> for a replacement without backslashes\<close>
  "re_sub r repl s = tok_sub repl (re_scan r s)"

definition re_split :: "rx \<Rightarrow> ustring \<Rightarrow> ustring list" where
  \<comment> \<open>\<open>r.split(text)\<close> for a pattern without groups\<close>
  "re_split r s = tok_split [] (re_scan r s)"

section \<open>The pattern tables\<close>

text \<open>
  The seven compiled patterns of \<open>Detector.py\<close>, character for character. In
  \<open>SWC_EXCLUDE_RE\<close> three pieces of the pattern text are juxtaposed without a \<open>|\<close> between
  them, so that the source's pattern has the alternatives \<open>U+7684 U+8D77 U+5FC3 U+809D
  U+4E9B [..]\<close> and \<open>U+5F04 [U+5802] U+628A [..]\<close>; they are kept as the source has them.
\<close>

definition CANTO_FEATURE_RE :: rx where
  "CANTO_FEATURE_RE =
   Alt [
     Cls (OneOf [Ch 0x5605, Ch 0x55F0, Ch 0x5572, Ch 0x5497, Ch 0x4F62, Ch 0x55BA, Ch 0x5481,
         Ch 0x5649, Ch 0x5187, Ch 0x5569, Ch 0x54CB, Ch 0x7540, Ch 0x569F, Ch 0x8AD7,
         Ch 0x60D7, Ch 0x4E5C, Ch 0x5622, Ch 0x95AA, Ch 0x649A, Ch 0x28CCD, Ch 0x28CCA,
         Ch 0x7793, Ch 0x7747, Ch 0x35CE, Ch 0x9938, Ch 0x282E2, Ch 0x6477, Ch 0x558E,
         Ch 0x56BF, Ch 0x5643, Ch 0x56A1, Ch 0x5625, Ch 0x55EE, Ch 0x5571, Ch 0x63FE,
         Ch 0x6435, Ch 0x5590, Ch 0x9033, Ch 0x564F, Ch 0x22CC2, Ch 0x5C8B, Ch 0x7CF4,
         Ch 0x63C8, Ch 0x6379, Ch 0x64B3, Ch 0x3A52, Ch 0x2512B, Ch 0x6530, Ch 0x7650,
         Ch 0x519A, Ch 0x5B7B, Ch 0x51A7, Ch 0x210C1, Ch 0x56AB, Ch 0x8DE3, Ch 0x280E9,
         Ch 0x7021, Ch 0x6C39, Ch 0x5B32, Ch 0x639F, Ch 0x5B6D, Ch 0x9ED0, Ch 0x551E,
         Ch 0x3A97, Ch 0x57DE, Ch 0x5FDF, Ch 0x226F4, Ch 0x55F1, Ch 0x4FC2, Ch 0x5514,
         Ch 0x5587, Ch 0x4FFE]),
     Seq [Lit 0x5514, Cls (OneOf [Ch 0x4FC2, Ch 0x5F97, Ch 0x6703, Ch 0x597D, Ch 0x8B58,
         Ch 0x4F7F, Ch 0x6D17, Ch 0x99DB, Ch 0x901A, Ch 0x77E5, Ch 0x5230, Ch 0x53BB,
         Ch 0x8D70, Ch 0x6382, Ch 0x8A72, Ch 0x932F, Ch 0x5DEE])],
     Seq [Lit 0x9EDE, Cls (OneOf [Ch 0x6A23, Ch 0x6703, Ch 0x505A, Ch 0x5F97, Ch 0x89E3])],
     Seq [Cls (OneOf [Ch 0x7434, Ch 0x5C0B, Ch 0x565A, Ch 0x807D, Ch 0x7B2C]), Lit 0x65E5],
     Seq [Cls (OneOf [Ch 0x800C, Ch 0x4F9D]), Lit 0x5BB6],
     Seq [Lit 0x5BB6, Cls (OneOf [Ch 0x4E0B, Ch 0x9663])],
     Seq [Cls (OneOf [Ch 0x771F, Ch 0x5C31, Ch 0x5BE6, Ch 0x6897, Ch 0x53C8, Ch 0x8A71,
         Ch 0x90FD]), Lit 0x4FC2],
     Seq [Lit 0x908A, Cls (OneOf [Ch 0x5EA6, Ch 0x500B, Ch 0x4F4D, Ch 0x79D1])],
     Seq [Cls (OneOf [Ch 0x5687, Ch 0x51CD, Ch 0x651D, Ch 0x6574, Ch 0x63E9, Ch 0x9022,
         Ch 0x6DE5, Ch 0x6D78, Ch 0x6FC0]), Cls (OneOf [Ch 0x89AA, Ch 0x56AB])],
     Seq [Cls (OneOf [Ch 0x6A6B, Ch 0x641E, Ch 0x50BE, Ch 0x8AD7, Ch 0x5F97, Ch 0x5514]),
         Lit 0x6382],
     Seq [Lit 0x4EF2, Cls (OneOf [Ch 0x6709, Ch 0x4FC2, Ch 0x8A71, Ch 0x8981, Ch 0x5F97,
         Ch 0x597D, Ch 0x8870, Ch 0x5514])],
     Seq [Lit 0x8FD4, Cls (OneOf [Ch 0x5B78, Ch 0x5DE5, Ch 0x53BB, Ch 0x6B78])],
     Seq [Lit 0x57F7, Cls (OneOf [Ch 0x597D, Ch 0x751F, Ch 0x5BE6, Ch 0x8FD4, Ch 0x8F38])],
     Seq [Cls (OneOf [Ch 0x7559, Ch 0x5750, Ch 0x5269]), Lit 0x4F4E],
     Seq [Lit 0x5C4B, Lit 0x4F01],
     Seq [Lit 0x6536, Lit 0x76AE],
     Seq [Lit 0x6173, Lit 0x9322],
     Seq [Lit 0x50BE, Cls (OneOf [Ch 0x5048, Ch 0x8A08])],
     Seq [Lit 0x5E6B, Lit 0x896F],
     Seq [Lit 0x6C42, Lit 0x5176],
     Seq [Lit 0x662F, Cls (OneOf [Ch 0x4F46, Ch 0x65E6])],
     Seq [Cls (OneOf [Ch 0x6FD5, Ch 0x6EBC]), Lit 0x788E],
     Seq [Lit 0x96F6, Lit 0x820D],
     Seq [Lit 0x8089, Cls (OneOf [Ch 0x8D64, Ch 0x7DCA, Ch 0x9178])],
     Seq [Lit 0x6838, Lit 0x7A81],
     Seq [Lit 0x540C, Lit 0x57CB],
     Seq [Lit 0x52C1, Cls (OneOf [Ch 0x79CB, Ch 0x62BD])],
     Seq [Lit 0x908A, Cls (OneOf [Ch 0x5EA6, Ch 0x96BB, Ch 0x689D, Ch 0x5F35, Ch 0x6A23,
         Ch 0x500B])],
     Seq [Lit 0x53BB, Lit 0x908A]]"

definition CANTO_EXCLUDE_RE :: rx where
  "CANTO_EXCLUDE_RE =
   Grp (Alt [Seq [Lit 0x95DC, Lit 0x4FC2], Seq [Lit 0x5431, Lit 0x5514], Seq [Lit 0x54BF,
       Lit 0x5514], Seq [Lit 0x5587, Lit 0x561B], Seq [Lit 0x5587, Lit 0x53ED],
       Seq [Lit 0x4FFE, Lit 0x8DEF, Lit 0x652F], Seq [Lit 0x4FFE, Lit 0x65AF, Lit 0x9EA5]])"

definition SWC_FEATURE_RE :: rx where
  "SWC_FEATURE_RE =
   Alt [
     Cls (OneOf [Ch 0x9019, Ch 0x54EA, Ch 0x5504, Ch 0x54B1, Ch 0x5565, Ch 0x752D, Ch 0x90A3,
         Ch 0x662F, Ch 0x7684, Ch 0x4ED6, Ch 0x5979, Ch 0x5B83, Ch 0x5427, Ch 0x6C92,
         Ch 0x9EBC, Ch 0x4E48, Ch 0x4E9B, Ch 0x4E86, Ch 0x537B, Ch 0x8AAC, Ch 0x8AAA,
         Ch 0x5403, Ch 0x5F04, Ch 0x628A, Ch 0x4E5F, Ch 0x5728]),
     Seq [Lit 0x800C, Lit 0x5DF2]]"

definition SWC_EXCLUDE_RE :: rx where
  "SWC_EXCLUDE_RE =
   Alt [
     Seq [Lit 0x4E9E, Lit 0x5229, Lit 0x6851, Lit 0x90A3],
     Seq [Lit 0x524E, Lit 0x90A3],
     Seq [Lit 0x5DF4, Lit 0x585E, Lit 0x7F85, Lit 0x90A3],
     Seq [Lit 0x85A9, Lit 0x90A3],
     Seq [Lit 0x6C99, Lit 0x90A3],
     Seq [Lit 0x54C8, Lit 0x74E6, Lit 0x90A3],
     Seq [Lit 0x5370, Lit 0x7B2C, Lit 0x5B89, Lit 0x90A3],
     Seq [Lit 0x90A3, Lit 0x4E0D, Lit 0x52D2, Lit 0x65AF],
     Seq [Lit 0x652F, Lit 0x90A3],
     Seq [Lit 0x662F, Cls (OneOf [Ch 0x5426, Ch 0x65E5, Ch 0x6B21, Ch 0x975E, Ch 0x4F46,
         Ch 0x65E6])],
     Seq [Cls (OneOf [Ch 0x5229, Ch 0x65BC]), Lit 0x662F],
     Seq [Lit 0x552F, Lit 0x547D, Lit 0x662F, Lit 0x5F9E],
     Seq [Lit 0x982D, Lit 0x982D, Lit 0x662F, Lit 0x9053],
     Seq [Lit 0x4F3C, Lit 0x662F, Lit 0x800C, Lit 0x975E],
     Seq [Lit 0x81EA, Lit 0x4EE5, Lit 0x70BA, Lit 0x662F],
     Seq [Lit 0x4FEF, Lit 0x62FE, Lit 0x7686, Lit 0x662F],
     Seq [Lit 0x64A9, Lit 0x662F, Lit 0x9B25, Lit 0x975E],
     Seq [Lit 0x83AB, Lit 0x8877, Lit 0x4E00, Lit 0x662F],
     Seq [Lit 0x552F, Lit 0x624D, Lit 0x662F, Lit 0x7528],
     Seq [Cls (OneOf [Ch 0x76EE, Ch 0x7DA0, Ch 0x85CD, Ch 0x7D05, Ch 0x4E2D]), Lit 0x7684],
     Seq [Lit 0x7684, Cls (OneOf [Ch 0x58EB, Ch 0x78BA, Ch 0x5F0F])],
     Seq [Lit 0x6CE2, Lit 0x7F85, Lit 0x7684, Lit 0x6D77],
     Seq [Lit 0x773E, Lit 0x77E2, Lit 0x4E4B, Lit 0x7684],
     Seq [Lit 0x7684, Lit 0x800C, Lit 0x4E14, Lit 0x78BA],
     Seq [Lit 0x5927, Lit 0x773C, Lit 0x7684, Lit 0x5EA6],
     Seq [Lit 0x7684, Lit 0x8D77, Lit 0x5FC3, Lit 0x809D, Lit 0x4E9B, Cls (OneOf [Ch 0x5FAE,
         Ch 0x5C11, Ch 0x8A31, Ch 0x5C0F])],
     Seq [Cls (OneOf [Ch 0x6DF9, Ch 0x6C89, Ch 0x6D78, Ch 0x8986, Ch 0x6E6E, Ch 0x57CB,
         Ch 0x6C92, Ch 0x51FA]), Lit 0x6C92],
     Seq [Lit 0x6C92, Cls (OneOf [Ch 0x843D, Ch 0x9802, Ch 0x6536])],
     Seq [Lit 0x795E, Lit 0x51FA, Lit 0x9B3C, Lit 0x6C92],
     Seq [Lit 0x4E86, Cls (OneOf [Ch 0x7D50, Ch 0x7121, Ch 0x65B7, Ch 0x7576, Ch 0x7136,
         Ch 0x54E5, Ch 0x7D50, Ch 0x5F97, Ch 0x89E3, Ch 0x4E8B, Ch 0x4E4B])],
     Seq [Cls (OneOf [Ch 0x672A, Ch 0x660E]), Lit 0x4E86],
     Seq [Lit 0x4E0D, Lit 0x5F97, Lit 0x4E86],
     Seq [Lit 0x5927, Lit 0x4E0D, Lit 0x4E86],
     Seq [Lit 0x4ED6, Cls (OneOf [Ch 0x4FE1, Ch 0x4EBA, Ch 0x570B, Ch 0x65E5, Ch 0x6BBA,
         Ch 0x9109])],
     Seq [Cls (OneOf [Ch 0x5176, Ch 0x5229, Ch 0x7121, Ch 0x6392, Ch 0x7DAD, Ch 0x7D50]),
         Lit 0x4ED6],
     Seq [Lit 0x99AC, Lit 0x8033, Lit 0x4ED6],
     Seq [Lit 0x4ED6, Lit 0x52A0, Lit 0x797F],
     Seq [Lit 0x4ED6, Lit 0x5C71, Lit 0x4E4B, Lit 0x77F3],
     Seq [Lit 0x5176, Cls (OneOf [Ch 0x5B83])],
     Seq [Cls (OneOf [Ch 0x9152, Ch 0x7DB2, Ch 0x6C34, Ch 0x8CBC]), Lit 0x5427],
     Seq [Lit 0x5427, Cls (OneOf [Ch 0x53F0, Ch 0x81FA, Ch 0x67B1, Ch 0x6AAF])],
     Seq [Cls (OneOf [Ch 0x9000, Ch 0x5FD8, Ch 0x963B]), Lit 0x537B],
     Seq [Lit 0x537B, Lit 0x6B65],
     Seq [Cls (OneOf [Ch 0x904A, Ch 0x6E38, Ch 0x5C0F, Ch 0x50B3, Ch 0x89E3, Ch 0x5B78,
         Ch 0x5047, Ch 0x6DFA, Ch 0x773E, Ch 0x8846, Ch 0x8A34, Ch 0x8AD6]),
         Cls (OneOf [Ch 0x8AAC, Ch 0x8AAA])],
     Seq [Cls (OneOf [Ch 0x8AAA, Ch 0x8AAC]), Cls (OneOf [Ch 0x8A71, Ch 0x670D, Ch 0x660E])],
     Seq [Lit 0x81EA, Lit 0x5713, Lit 0x5176, Cls (OneOf [Ch 0x8AAC, Ch 0x8AAA])],
     Seq [Lit 0x9577, Lit 0x8A71, Lit 0x77ED, Cls (OneOf [Ch 0x8AAA, Ch 0x8AAC])],
     Seq [Lit 0x4E0D, Lit 0x7531, Lit 0x5206, Cls (OneOf [Ch 0x8AAA, Ch 0x8AAC])],
     Seq [Lit 0x5403, Cls (OneOf [Ch 0x8667, Ch 0x82E6, Ch 0x529B])],
     Seq [Lit 0x5F04, Cls (OneOf [Ch 0x5802]), Lit 0x628A, Cls (OneOf [Ch 0x63E1, Ch 0x67C4,
         Ch 0x6301, Ch 0x706B, Ch 0x98A8, Ch 0x95DC, Ch 0x9B3C, Ch 0x53E3, Ch 0x5634,
         Ch 0x6232, Ch 0x8108, Ch 0x70AE, Ch 0x7832, Ch 0x5C41, Ch 0x624B, Ch 0x8072])],
     Seq [Lit 0x5927, Lit 0x628A],
     Seq [Lit 0x62C9, Lit 0x628A],
     Seq [Lit 0x51A7, Lit 0x628A],
     Seq [Lit 0x6383, Lit 0x628A],
     Seq [Lit 0x62D6, Lit 0x628A],
     Seq [Lit 0x5F97, Lit 0x628A],
     Seq [Lit 0x52A0, Lit 0x628A],
     Seq [Lit 0x4E0B, Lit 0x628A, Lit 0x4F4D],
     Seq [Lit 0x4E00, Lit 0x628A, Lit 0x5E74, Lit 0x7D00],
     Seq [Lit 0x628A, Lit 0x6B7B, Lit 0x4EBA, Lit 0x8072],
     Seq [Lit 0x81EA, Lit 0x628A, Lit 0x81EA, Lit 0x70BA],
     Seq [Lit 0x5169, Lit 0x628A],
     Seq [Lit 0x4E09, Lit 0x628A],
     Seq [Lit 0x56DB, Lit 0x628A],
     Seq [Lit 0x4E94, Lit 0x628A],
     Seq [Lit 0x5E7E, Lit 0x628A],
     Seq [Lit 0x62CE, Lit 0x628A],
     Seq [Lit 0x7B2C, Lit 0x4E00, Lit 0x628A],
     Seq [Lit 0x6CF5, Lit 0x628A],
     Seq [Lit 0x4E5F, Cls (OneOf [Ch 0x8A31, Ch 0x9580])],
     Seq [Cls (OneOf [Ch 0x975E, Ch 0x5A01]), Lit 0x4E5F],
     Seq [Lit 0x4E5F, Lit 0x6587, Lit 0x4E5F, Lit 0x6B66],
     Seq [Lit 0x4E4B, Lit 0x4E4E, Lit 0x8005, Lit 0x4E5F],
     Seq [Lit 0x7DAD, Lit 0x4E5F, Lit 0x7D0D],
     Seq [Lit 0x7A7A, Lit 0x7A7A, Lit 0x5982, Lit 0x4E5F],
     Seq [Lit 0x982D, Lit 0x4E5F, Lit 0x4E0D, Lit 0x56DE],
     Seq [Lit 0x6642, Lit 0x4E5F, Cls (OneOf [Ch 0x547D, Ch 0x904B]), Lit 0x4E5F],
     Seq [Lit 0x5728, Cls (OneOf [Ch 0x5834, Ch 0x4E4E, Ch 0x4E0B, Ch 0x6821, Ch 0x5B78,
         Ch 0x884C, Ch 0x4EFB, Ch 0x91CE, Ch 0x610F, Ch 0x65BC, Ch 0x671B, Ch 0x5167,
         Ch 0x6848, Ch 0x65C1, Ch 0x751F, Ch 0x4E16, Ch 0x5FC3, Ch 0x7DDA, Ch 0x9003,
         Ch 0x4F4D, Ch 0x5373, Ch 0x8077, Ch 0x5EA7, Ch 0x56DA, Ch 0x6B64, Ch 0x5BB6])],
     Seq [Cls (OneOf [Ch 0x7AD9, Ch 0x5FD7, Ch 0x65E8, Ch 0x722D, Ch 0x6240, Ch 0x52DD,
         Ch 0x8870, Ch 0x5BE6, Ch 0x5167, Ch 0x5916, Ch 0x5FF5, Ch 0x73FE, Ch 0x597D,
         Ch 0x5065, Ch 0x5B58, Ch 0x6F5B, Ch 0x5DEE, Ch 0x5F0A, Ch 0x6D3B]), Lit 0x5728],
     Seq [Lit 0x6211, Lit 0x601D, Lit 0x6545, Lit 0x6211, Lit 0x5728]]"

definition ALL_QUOTEMARKS_RE :: rx where
  "ALL_QUOTEMARKS_RE =
   Alt [
     Seq [Lit 0x300C, Grp (Star (NoneOf [Ch 0x300C])), Lit 0x300D],
     Seq [Lit 0x201C, Grp (Star (NoneOf [Ch 0x201C])), Lit 0x201D],
     Seq [Lit 0x300A, Grp (Star (NoneOf [Ch 0x300A])), Lit 0x300B],
     Seq [Lit 0x3010, Grp (Star (NoneOf [Ch 0x3010])), Lit 0x3011],
     Seq [Lit 0x300E, Grp (Star (NoneOf [Ch 0x300E])), Lit 0x300F]]"

definition ALL_DELIMITERS_RE :: rx where
  "ALL_DELIMITERS_RE =
   Cls (OneOf [Ch 0xFF0C, Ch 0x3002, Ch 0xFF1B, Ch 0xFF1F, Ch 0xFF01, Ch 0x22EF, Ch 0x000A])"

definition ALL_HAN_RE :: rx where
  "ALL_HAN_RE =
   Seq [Cls (OneOf [Rng 0x4E00 0x9FFF, Rng 0x3400 0x4DBF, Rng 0x20000 0x2A6DF,
       Rng 0x2A700 0x2EBEF, Rng 0x30000 0x323AF, Ch 0xFA0E, Ch 0xFA0F, Ch 0xFA11, Ch 0xFA13,
       Ch 0xFA14, Ch 0xFA1F, Ch 0xFA21, Ch 0xFA23, Ch 0xFA24, Ch 0xFA27, Ch 0xFA28, Ch 0xFA29,
       Ch 0x3006, Ch 0x3007]), Opt (OneOf [Rng 0xFE00 0xFE0F, Rng 0xE0100 0xE01EF])]"

section \<open>Python's numbers\<close>

text \<open>
  Python's \<open>int\<close> is unbounded (\<open>int\<close> here). Its \<open>float\<close> is an IEEE 754 binary64 number:
  a finite value (a rational with a 53-bit significand), an infinity or NaN. Every
  operation computes the exact result and rounds it to the nearest representable value,
  ties to even. The sign of a zero is left out: no operation of the detector tells
  \<open>0.0\<close> from \<open>-0.0\<close>.
\<close>

datatype pyfloat = Fin rat | PosInf | NegInf | NaN

datatype py_error = ZeroDivisionError | OverflowError | ValueError

definition ilog2 :: "rat \<Rightarrow> int" where
  \<comment> \<open>for \<open>a > 0\<close>, the integer \<open>k\<close> with \<open>2^k \<le> a < 2^(k+1)\<close>\<close>
  "ilog2 a =
     (let (p, q) = quotient_of a; k = bitlen p - bitlen q
      in if 2 powi k \<le> a then k else k - 1)"

definition round_half_even :: "rat \<Rightarrow> int" where
  "round_half_even x =
     (let f = \<lfloor>x\<rfloor>; d = x - of_int f
      in if d < 1 / 2 then f else if 1 / 2 < d then f + 1 else if even f then f else f + 1)"

definition round_double :: "rat \<Rightarrow> pyfloat" where
  \<comment> \<open>the binary64 value nearest to \<open>x\<close>: 53 bits, least exponent \<open>-1074\<close>, overflow at \<open>2^1024\<close>\<close>
  "round_double x =
     (if x = 0 then Fin 0
      else let a = \<bar>x\<bar>;
               e = max (ilog2 a - 52) (- 1074);
               v = of_int (round_half_even (a / 2 powi e)) * 2 powi e
           in if 2 ^ 1024 \<le> v then (if 0 < x then PosInf else NegInf)
              else Fin (if 0 < x then v else - v))"

definition is_finite :: "pyfloat \<Rightarrow> bool" where
  "is_finite x = (case x of Fin _ \<Rightarrow> True | _ \<Rightarrow> False)"

fun float_mul :: "pyfloat \<Rightarrow> pyfloat \<Rightarrow> pyfloat" where
  "float_mul (Fin a) (Fin b) = round_double (a * b)"
| "float_mul NaN _ = NaN"
| "float_mul _ NaN = NaN"
| "float_mul (Fin a) PosInf = (if a = 0 then NaN else if 0 < a then PosInf else NegInf)"
| "float_mul (Fin a) NegInf = (if a = 0 then NaN else if 0 < a then NegInf else PosInf)"
| "float_mul PosInf (Fin b) = (if b = 0 then NaN else if 0 < b then PosInf else NegInf)"
| "float_mul NegInf (Fin b) = (if b = 0 then NaN else if 0 < b then NegInf else PosInf)"
| "float_mul PosInf PosInf = PosInf"
| "float_mul PosInf NegInf = NegInf"
| "float_mul NegInf PosInf = NegInf"
| "float_mul NegInf NegInf = PosInf"

fun float_sub :: "pyfloat \<Rightarrow> pyfloat \<Rightarrow> pyfloat" where
  "float_sub (Fin a) (Fin b) = round_double (a - b)"
| "float_sub NaN _ = NaN"
| "float_sub _ NaN = NaN"
| "float_sub (Fin a) PosInf = NegInf"
| "float_sub (Fin a) NegInf = PosInf"
| "float_sub PosInf (Fin b) = PosInf"
| "float_sub NegInf (Fin b) = NegInf"
| "float_sub PosInf PosInf = NaN"
| "float_sub PosInf NegInf = PosInf"
| "float_sub NegInf PosInf = NegInf"
| "float_sub NegInf NegInf = NaN"

fun float_gt :: "pyfloat \<Rightarrow> pyfloat \<Rightarrow> bool" where
  "float_gt (Fin a) (Fin b) = (b < a)"
| "float_gt NaN _ = False"
| "float_gt _ NaN = False"
| "float_gt PosInf PosInf = False"
| "float_gt PosInf _ = True"
| "float_gt NegInf _ = False"
| "float_gt (Fin a) PosInf = False"
| "float_gt (Fin a) NegInf = True"

text \<open>
  Results are \<open>py_error + 'a\<close>: \<open>Inl e\<close> is the exception \<open>e\<close> raised, \<open>Inr v\<close> the value
  returned. \<open>raise_bind\<close> runs the next statement on a value and passes an exception up.
\<close>

definition raise_bind :: "py_error + 'a \<Rightarrow> ('a \<Rightarrow> py_error + 'b) \<Rightarrow> py_error + 'b" where
  "raise_bind m f = (case m of Inl e \<Rightarrow> Inl e | Inr v \<Rightarrow> f v)"

definition float_of_int :: "int \<Rightarrow> py_error + pyfloat" where
  \<comment> \<open>the conversion of an \<open>int\<close> operand of a float operation; too large an \<open>int\<close> raises\<close>
  "float_of_int n =
     (case round_double (of_int n) of Fin r \<Rightarrow> Inr (Fin r) | _ \<Rightarrow> Inl OverflowError)"

definition float_mul_int :: "pyfloat \<Rightarrow> int \<Rightarrow> py_error + pyfloat" where
  \<comment> \<open>\<open>x * n\<close> and \<open>n * x\<close> for a float \<open>x\<close> and an int \<open>n\<close>\<close>
  "float_mul_int x n = raise_bind (float_of_int n) (\<lambda>y. Inr (float_mul x y))"

definition int_truediv :: "int \<Rightarrow> int \<Rightarrow> py_error + pyfloat" where
  \<comment> \<open>\<open>a / b\<close> for two ints: the exact quotient, rounded once\<close>
  "int_truediv a b =
     (if b = 0 then Inl ZeroDivisionError
      else case round_double (of_int a / of_int b) of
             Fin r \<Rightarrow> Inr (Fin r) | _ \<Rightarrow> Inl OverflowError)"

fun math_floor :: "pyfloat \<Rightarrow> py_error + int" where
  "math_floor (Fin r) = Inr \<lfloor>r\<rfloor>"
| "math_floor NaN = Inl ValueError"
| "math_floor _ = Inl OverflowError"

fun math_ceil :: "pyfloat \<Rightarrow> py_error + int" where
  "math_ceil (Fin r) = Inr \<lceil>r\<rceil>"
| "math_ceil NaN = Inl ValueError"
| "math_ceil _ = Inl OverflowError"

definition float_lit :: "rat \<Rightarrow> pyfloat" where
  \<comment> \<open>a decimal literal of the source, such as \<open>0.9\<close>: the double nearest to it\<close>
  "float_lit q = round_double q"

section \<open>Python's strings, lists and \<open>Counter\<close>\<close>

definition str_isspace :: "nat \<Rightarrow> bool" where
  \<comment> \<open>the characters \<open>str.strip()\<close> removes: the whitespace of Unicode, as CPython lists it\<close>
  "str_isspace c =
     ((0x09 \<le> c \<and> c \<le> 0x0D) \<or> (0x1C \<le> c \<and> c \<le> 0x20) \<or> c = 0x85 \<or> c = 0xA0 \<or>
      c = 0x1680 \<or> (0x2000 \<le> c \<and> c \<le> 0x200A) \<or> c = 0x2028 \<or> c = 0x2029 \<or>
      c = 0x202F \<or> c = 0x205F \<or> c = 0x3000)"

definition str_strip :: "ustring \<Rightarrow> ustring" where
  "str_strip s = rev (dropWhile str_isspace (rev (dropWhile str_isspace s)))"

fun str_join :: "ustring \<Rightarrow> ustring list \<Rightarrow> ustring" where
  "str_join sep [] = []"
| "str_join sep [x] = x"
| "str_join sep (x # y # ys) = x @ sep @ str_join sep (y # ys)"

text \<open>
  A \<open>Counter\<close> is a dictionary from elements to counts, in order of first insertion; a
  key it does not hold reads as \<open>0\<close>.
\<close>

type_synonym 'a counter = "('a \<times> nat) list"

fun counter_add :: "'a \<Rightarrow> 'a counter \<Rightarrow> 'a counter" where
  "counter_add x [] = [(x, 1)]"
| "counter_add x ((k, n) # c) = (if k = x then (k, Suc n) # c else (k, n) # counter_add x c)"

definition Counter :: "'a list \<Rightarrow> 'a counter" where
  "Counter xs = foldl (\<lambda>c x. counter_add x c) [] xs"

definition counter_get :: "'a counter \<Rightarrow> 'a \<Rightarrow> nat" where
  "counter_get c k = (case map_of c k of None \<Rightarrow> 0 | Some n \<Rightarrow> n)"

definition counter_values :: "'a counter \<Rightarrow> nat list" where
  "counter_values c = map snd c"

text \<open>A list comprehension over a call that can raise: the first exception ends it.\<close>

fun raise_map :: "('a \<Rightarrow> py_error + 'b) \<Rightarrow> 'a list \<Rightarrow> py_error + 'b list" where
  "raise_map f [] = Inr []"
| "raise_map f (x # xs) =
     raise_bind (f x) (\<lambda>y. raise_bind (raise_map f xs) (\<lambda>ys. Inr (y # ys)))"

section \<open>The detector\<close>

text \<open>
  Modelled from the spec: the class \<open>SegmentFeatures\<close> of
  \<open>cantonesedetect/SegmentFeatures.py\<close>, which \<open>Detector.py\<close> imports and whose source is
  not at hand. The spec's data model has it as a plain record of one segment: the raw
  feature and exclusion match lists, the two net counts and the Han length. The fields
  are the constructor's arguments, in its order; the detector reads only the last three.
\<close>

record SegmentFeatures =
  segment :: ustring
  canto_feature :: "ustring list"
  canto_exclude :: "ustring list"
  swc_feature :: "ustring list"
  swc_exclude :: "ustring list"
  canto_feature_count :: int
  swc_feature_count :: int
  han_length :: int

text \<open>The attributes of a \<open>CantoneseDetector\<close>, set once by \<open>__init__\<close>.\<close>

record detector =
  split_seg :: bool
  get_quote :: bool
  print_stat :: bool
  canto_tolerance :: pyfloat
  swc_tolerance :: pyfloat
  canto_presence :: pyfloat
  swc_presence :: pyfloat

definition CantoneseDetector :: detector where
  \<comment> \<open>\<open>CantoneseDetector()\<close>, every argument at its default\<close>
  "CantoneseDetector =
     \<lparr>split_seg = False, get_quote = False, print_stat = False,
      canto_tolerance = float_lit (1 / 100), swc_tolerance = float_lit (1 / 100),
      canto_presence = float_lit (3 / 100), swc_presence = float_lit (3 / 100)\<rparr>"

definition ELLIPSIS :: ustring where
  \<comment> \<open>the one-character string \<open>"\<dots>"\<close> (U+2026) of the source\<close>
  "ELLIPSIS = [0x2026]"

definition hant_length :: "ustring \<Rightarrow> int" where
  "hant_length seg = int (re_count ALL_HAN_RE seg)"

definition separate_quotes :: "ustring \<Rightarrow> ustring \<times> ustring" where
  "separate_quotes document =
     (let matrix = re_sub ALL_QUOTEMARKS_RE ELLIPSIS document;
          quote_segments = re_findall_groups ALL_QUOTEMARKS_RE document;
          quotes = str_join ELLIPSIS quote_segments
      in (matrix, quotes))"

definition get_segment_features :: "ustring \<Rightarrow> SegmentFeatures" where
  "get_segment_features seg =
     (let cf = re_findall CANTO_FEATURE_RE seg;
          ce = re_findall CANTO_EXCLUDE_RE seg;
          sf = re_findall SWC_FEATURE_RE seg;
          se = re_findall SWC_EXCLUDE_RE seg;
          cfc = int (length cf) - int (length ce);
          sfc = int (length sf) - int (length se);
          len = hant_length seg
      in \<lparr>segment = seg, canto_feature = cf, canto_exclude = ce, swc_feature = sf,
          swc_exclude = se, canto_feature_count = cfc, swc_feature_count = sfc,
          han_length = len\<rparr>)"

definition judge_single_segment :: "detector \<Rightarrow> ustring \<Rightarrow> py_error + string" where
  "judge_single_segment self seg =
     (let features = get_segment_features seg;
          num_all_features = canto_feature_count features + swc_feature_count features
      in
      raise_bind (float_mul_int (swc_tolerance self) (han_length features)) (\<lambda>st.
      raise_bind (math_floor st) (\<lambda>swc_floor.
      raise_bind (float_mul_int (canto_tolerance self) (han_length features)) (\<lambda>ct.
      raise_bind (math_floor ct) (\<lambda>canto_floor.
      let lack_swc = (swc_feature_count features \<le> swc_floor);
          lack_canto = (canto_feature_count features \<le> canto_floor)
      in
      if num_all_features = 0 \<or> (lack_canto \<and> lack_swc) then Inr ''Neutral''
      else
        raise_bind (float_mul_int (canto_presence self) (han_length features)) (\<lambda>cp.
        raise_bind (math_ceil cp) (\<lambda>canto_ceil.
        raise_bind (float_mul_int (swc_presence self) (han_length features)) (\<lambda>sp.
        raise_bind (math_ceil sp) (\<lambda>swc_ceil.
        let has_canto = (canto_ceil \<le> canto_feature_count features);
            has_swc = (swc_ceil \<le> swc_feature_count features)
        in
        raise_bind (int_truediv (canto_feature_count features) num_all_features) (\<lambda>c1.
        raise_bind (int_truediv (swc_feature_count features) num_all_features) (\<lambda>s1.
        let canto_pref = float_gt (float_sub c1 s1) (float_lit (9 / 10)) in
        raise_bind (int_truediv (swc_feature_count features) num_all_features) (\<lambda>s2.
        raise_bind (int_truediv (canto_feature_count features) num_all_features) (\<lambda>c2.
        let swc_pref = float_gt (float_sub s2 c2) (float_lit (9 / 10)) in
        if canto_pref \<and> \<not> has_swc then Inr ''Cantonese''
        else if swc_pref \<and> \<not> has_canto then Inr ''SWC''
        else Inr ''Mixed'')))))))))))))"

definition judge_segments :: "detector \<Rightarrow> ustring \<Rightarrow> py_error + string" where
  "judge_segments self document =
     (let segments = filter (\<lambda>x. str_strip x \<noteq> []) (re_split ALL_DELIMITERS_RE document) in
      raise_bind (raise_map (judge_single_segment self) segments) (\<lambda>judgements.
      let judgements_counter = Counter judgements;
          canto_seg_count = counter_get judgements_counter ''Cantonese'';
          swc_seg_count = counter_get judgements_counter ''SWC'';
          neutral_seg_count = counter_get judgements_counter ''Neutral''
      in
      raise_bind (float_mul_int (float_lit (19 / 20))
                    (int (sum_list (counter_values judgements_counter)))) (\<lambda>t.
      raise_bind (math_ceil t) (\<lambda>threshold.
      let canto_only = (threshold \<le> int (canto_seg_count + neutral_seg_count));
          swc_only = (threshold \<le> int (swc_seg_count + neutral_seg_count));
          neutral_only = (threshold \<le> int neutral_seg_count)
      in
      if neutral_only then Inr ''Neutral''
      else if canto_only then Inr ''Cantonese''
      else if swc_only then Inr ''SWC''
      else Inr ''Mixed''))))"

definition judge_document :: "detector \<Rightarrow> ustring \<Rightarrow> py_error + string" where
  "judge_document self document =
     (if split_seg self then judge_segments self document
      else judge_single_segment self document)"

definition judge_matrix_quotes :: "detector \<Rightarrow> ustring \<Rightarrow> py_error + string" where
  "judge_matrix_quotes self document =
     (let (matrix, quotes) = separate_quotes document in
      if matrix = ELLIPSIS then judge_document self (re_sub ALL_QUOTEMARKS_RE [] quotes)
      else if quotes = [] then judge_document self matrix
      else
        raise_bind (judge_document self matrix) (\<lambda>matrix_judgement.
        raise_bind (judge_document self quotes) (\<lambda>quotes_judgement.
        if matrix_judgement = quotes_judgement then Inr matrix_judgement
        else if matrix_judgement = ''Neutral'' then Inr quotes_judgement
        else if quotes_judgement = ''Neutral'' then Inr matrix_judgement
        else if matrix_judgement = ''SWC'' \<and> quotes_judgement = ''Cantonese''
          then Inr ''CantoneseQuotesInSWC''
        else if matrix_judgement = ''SWC'' \<and> quotes_judgement = ''Mixed''
          then Inr ''MixedQuotesInSWC''
        else Inr ''Mixed'')))"

definition judge :: "detector \<Rightarrow> ustring \<Rightarrow> py_error + string" where
  "judge self document =
     (if get_quote self then judge_matrix_quotes self document
      else judge_document self document)"

section \<open>The algorithms as the specification words them\<close>

text \<open>
  The specification gives each component as numbered steps over the feature counts.
  The definitions of this section follow its words, not the source; the theorems
  compare them with the functions above. A step whose arithmetic has no value (a
  \<open>floor\<close> of NaN, say) leaves the algorithm without a label: \<open>None\<close>.
\<close>

definition times_floor :: "pyfloat \<Rightarrow> int \<Rightarrow> int option" where
  \<comment> \<open>\<open>floor(t \<times> L)\<close>\<close>
  "times_floor t L =
     (case float_mul_int t L of Inl _ \<Rightarrow> None
      | Inr x \<Rightarrow> (case math_floor x of Inl _ \<Rightarrow> None | Inr n \<Rightarrow> Some n))"

definition times_ceil :: "pyfloat \<Rightarrow> int \<Rightarrow> int option" where
  \<comment> \<open>\<open>ceil(t \<times> L)\<close>\<close>
  "times_ceil t L =
     (case float_mul_int t L of Inl _ \<Rightarrow> None
      | Inr x \<Rightarrow> (case math_ceil x of Inl _ \<Rightarrow> None | Inr n \<Rightarrow> Some n))"

definition dominance :: "int \<Rightarrow> int \<Rightarrow> pyfloat option" where
  \<comment> \<open>\<open>a/total \<minus> b/total\<close> with \<open>total = a + b\<close>\<close>
  "dominance a b =
     (let total = a + b in
      case int_truediv a total of Inl _ \<Rightarrow> None
      | Inr x \<Rightarrow> (case int_truediv b total of Inl _ \<Rightarrow> None | Inr y \<Rightarrow> Some (float_sub x y)))"

definition segment_judge_spec :: "detector \<Rightarrow> int \<Rightarrow> int \<Rightarrow> int \<Rightarrow> string option" where
  \<comment> \<open>section 4.2, steps 1 to 5\<close>
  "segment_judge_spec cfg canto_count swc_count L =
     (case times_floor (canto_tolerance cfg) L of None \<Rightarrow> None | Some canto_tol \<Rightarrow>
      case times_floor (swc_tolerance cfg) L of None \<Rightarrow> None | Some swc_tol \<Rightarrow>
      if canto_count + swc_count = 0 \<or> (canto_count \<le> canto_tol \<and> swc_count \<le> swc_tol)
      then Some ''Neutral''
      else
        case times_ceil (canto_presence cfg) L of None \<Rightarrow> None | Some canto_min \<Rightarrow>
        case times_ceil (swc_presence cfg) L of None \<Rightarrow> None | Some swc_min \<Rightarrow>
        case dominance canto_count swc_count of None \<Rightarrow> None | Some canto_dom \<Rightarrow>
        case dominance swc_count canto_count of None \<Rightarrow> None | Some swc_dom \<Rightarrow>
        if float_gt canto_dom (float_lit (9 / 10)) \<and> \<not> swc_min \<le> swc_count
        then Some ''Cantonese''
        else if float_gt swc_dom (float_lit (9 / 10)) \<and> \<not> canto_min \<le> canto_count
        then Some ''SWC''
        else Some ''Mixed'')"

definition whitespace_only :: "ustring \<Rightarrow> bool" where
  "whitespace_only p = list_all str_isspace p"

definition aggregate_spec :: "string list \<Rightarrow> string option" where
  \<comment> \<open>section 4.3, steps 3 and 4, on the labels of the judged pieces\<close>
  "aggregate_spec labels =
     (case times_ceil (float_lit (19 / 20)) (int (length labels)) of None \<Rightarrow> None
      | Some threshold \<Rightarrow>
          let neutral_count = int (count_list labels ''Neutral'');
              cantonese_count = int (count_list labels ''Cantonese'');
              swc_count = int (count_list labels ''SWC'')
          in if threshold \<le> neutral_count then Some ''Neutral''
             else if threshold \<le> cantonese_count + neutral_count then Some ''Cantonese''
             else if threshold \<le> swc_count + neutral_count then Some ''SWC''
             else Some ''Mixed'')"

definition segment_aggregator_spec :: "detector \<Rightarrow> ustring \<Rightarrow> string option" where
  \<comment> \<open>section 4.3, steps 1 to 4\<close>
  "segment_aggregator_spec cfg document =
     (let pieces = filter (\<lambda>p. \<not> whitespace_only p) (re_split ALL_DELIMITERS_RE document) in
      case raise_map (judge_single_segment cfg) pieces of Inl _ \<Rightarrow> None
      | Inr labels \<Rightarrow> aggregate_spec labels)"

definition reconcile_spec :: "string \<Rightarrow> string \<Rightarrow> string" where
  \<comment> \<open>section 4.5, step 4, on the labels of the matrix and of the quotes\<close>
  "reconcile_spec mJ qJ =
     (if mJ = qJ then mJ
      else if mJ = ''Neutral'' then qJ
      else if qJ = ''Neutral'' then mJ
      else if (mJ, qJ) = (''SWC'', ''Cantonese'') then ''CantoneseQuotesInSWC''
      else if (mJ, qJ) = (''SWC'', ''Mixed'') then ''MixedQuotesInSWC''
      else ''Mixed'')"

section \<open>The quote styles\<close>

text \<open>
  Each alternative of \<open>ALL_QUOTEMARKS_RE\<close> has the form \<open>op ([^op]*) cl\<close> for a pair of
  marks; the pairs, in the pattern's order, are corner brackets, curly double quotes,
  double angle brackets, lenticular brackets and white corner brackets.
\<close>

definition quote_style_rx :: "nat \<times> nat \<Rightarrow> rx" where
  "quote_style_rx = (\<lambda>(op, cl). Seq [Lit op, Grp (Star (NoneOf [Ch op])), Lit cl])"

definition quote_styles :: "(nat \<times> nat) list" where
  "quote_styles =
     [(0x300C, 0x300D), (0x201C, 0x201D), (0x300A, 0x300B), (0x3010, 0x3011), (0x300E, 0x300F)]"

text \<open>
  \<open>quote_closes op cl xs\<close>: the ways a span opened by \<open>op\<close> just before \<open>xs\<close> can be closed by
  \<open>cl\<close>, each with the span's content and the text after it, the longest span first.
\<close>

fun quote_closes :: "nat \<Rightarrow> nat \<Rightarrow> ustring \<Rightarrow> (ustring \<times> ustring) list" where
  "quote_closes op cl [] = []"
| "quote_closes op cl (x # xs) =
     (if x \<noteq> op then map (\<lambda>(g, u). (x # g, u)) (quote_closes op cl xs) else []) @
     (if x = cl then [([], xs)] else [])"

text \<open>\<open>close_at cl full t\<close>: the span closed at the rest \<open>t\<close> of \<open>full\<close>, if \<open>t\<close> starts with \<open>cl\<close>.\<close>

definition close_at :: "nat \<Rightarrow> ustring \<Rightarrow> ustring \<Rightarrow> (ustring \<times> ustring) list" where
  "close_at cl full t =
     (case t of [] \<Rightarrow> []
      | c # u \<Rightarrow> if c = cl then [(take (length full - length t) full, u)] else [])"

text \<open>
  Section 4.5, step 2, in the specification's words: the de-quoted content "with the
  placeholder markers stripped".
\<close>

definition strip_placeholder :: "ustring \<Rightarrow> ustring" where
  "strip_placeholder s = filter (\<lambda>c. [c] \<noteq> ELLIPSIS) s"

section \<open>Thresholds within the float range\<close>

text \<open>
  A threshold is multiplied by a Han length and the product is taken to an integer. That
  has a value only when the product is finite: the threshold has to be a finite number,
  and not so large that the product overflows. \<open>2^900\<close> times the length of any Python
  string (fewer than \<open>2^63\<close> characters) stays below the largest float.
\<close>

definition threshold_ok :: "pyfloat \<Rightarrow> bool" where
  "threshold_ok t = (case t of Fin a \<Rightarrow> \<bar>a\<bar> \<le> 2 ^ 900 | _ \<Rightarrow> False)"

definition thresholds_ok :: "detector \<Rightarrow> bool" where
  "thresholds_ok self =
     (threshold_ok (canto_tolerance self) \<and> threshold_ok (swc_tolerance self) \<and>
      threshold_ok (canto_presence self) \<and> threshold_ok (swc_presence self))"

definition segment_labels :: "string list" where
  "segment_labels = [''Neutral'', ''Cantonese'', ''SWC'', ''Mixed'']"

definition all_labels :: "string list" where
  "all_labels = segment_labels @ [''CantoneseQuotesInSWC'', ''MixedQuotesInSWC'']"

section \<open>The words of a pattern without \<open>*\<close>\<close>

text \<open>
  The feature and exclusion patterns use no \<open>*\<close>: each matches one of finitely many
  words, a word being a sequence of character classes (a literal is the class of one
  character). \<open>rx_words r\<close> lists the words of \<open>r\<close>; \<open>cword_prefix w s\<close> says that the
  text \<open>s\<close> starts with the word \<open>w\<close>, \<open>word_occurs w s\<close> that \<open>w\<close> is found somewhere in
  \<open>s\<close>.
\<close>

fun cword_prefix :: "cset list \<Rightarrow> ustring \<Rightarrow> bool" where
  "cword_prefix [] s = True"
| "cword_prefix (c # w) [] = False"
| "cword_prefix (c # w) (x # xs) = (in_cset c x \<and> cword_prefix w xs)"






section \<open>Facts about rounding\<close>

lemma bitlen_powi_bounds:
  assumes "0 < p"
  shows "2 powi (bitlen p - 1) \<le> (of_int p :: rat)" and "(of_int p :: rat) < 2 powi (bitlen p)"
proof -
  have b: "1 \<le> bitlen p" using assms by (simp add: bitlen_alt_def)
  have "(2::int) ^ nat (bitlen p - 1) \<le> p" and "p < 2 ^ nat (bitlen p)"
    using bitlen_bounds [OF assms] by simp_all
  then have "(of_int ((2::int) ^ nat (bitlen p - 1)) :: rat) \<le> of_int p"
    and "(of_int p :: rat) < of_int (2 ^ nat (bitlen p))"
    by (simp_all only: of_int_le_iff of_int_less_iff)
  then show "2 powi (bitlen p - 1) \<le> (of_int p :: rat)" and "(of_int p :: rat) < 2 powi (bitlen p)"
    using b by (simp_all add: power_int_nonneg_exp)
qed

lemma ilog2_bounds:
  assumes "0 < a"
  shows "2 powi (ilog2 a) \<le> a" and "a < 2 powi (ilog2 a + 1)"
proof -
  obtain p q where pq: "quotient_of a = (p, q)" by (cases "quotient_of a")
  then have q: "0 < q" and a: "a = of_int p / of_int q"
    using quotient_of_denom_pos quotient_of_div by auto
  from assms a q have p: "0 < p"
    by (simp add: zero_less_divide_iff)
  define bp where "bp = bitlen p"
  define bq where "bq = bitlen q"
  define k where "k = bp - bq"
  note P = bitlen_powi_bounds [OF p, folded bp_def]
  note Q = bitlen_powi_bounds [OF q, folded bq_def]
  have qpos: "(0::rat) < of_int q" using q by simp
  have e1: "(2::rat) powi (k - 1) * 2 powi bq = 2 powi (bp - 1)"
    by (simp add: k_def power_int_add [symmetric])
  have e2: "(2::rat) powi (k + 1) * 2 powi (bq - 1) = 2 powi bp"
    by (simp add: k_def power_int_add [symmetric])
  have "2 powi (k - 1) * of_int q < (2::rat) powi (k - 1) * 2 powi bq"
    using Q(2) by (simp add: mult_strict_left_mono)
  also have "\<dots> \<le> of_int p" using P(1) e1 by simp
  finally have lo: "2 powi (k - 1) < a"
    using qpos by (simp add: a pos_less_divide_eq)
  have "of_int p < (2::rat) powi (k + 1) * 2 powi (bq - 1)"
    using P(2) e2 by simp
  also have "\<dots> \<le> 2 powi (k + 1) * of_int q"
    using Q(1) by (simp add: mult_left_mono)
  finally have hi: "a < 2 powi (k + 1)"
    using qpos by (simp add: a pos_divide_less_eq)
  have il: "ilog2 a = (if 2 powi k \<le> a then k else k - 1)"
    by (simp add: ilog2_def pq k_def bp_def bq_def)
  show "2 powi (ilog2 a) \<le> a" using lo by (simp add: il)
  show "a < 2 powi (ilog2 a + 1)" using hi by (simp add: il)
qed

lemma powi2_less_iff: "((2::rat) powi m < 2 powi n) = (m < n)"
proof
  assume "(2::rat) powi m < 2 powi n"
  show "m < n"
  proof (rule ccontr)
    assume "\<not> m < n"
    then have "(2::rat) powi n \<le> 2 powi m" by (simp add: power_int_increasing)
    with \<open>(2::rat) powi m < 2 powi n\<close> show False by simp
  qed
next
  assume "m < n"
  then show "(2::rat) powi m < 2 powi n" by (simp add: power_int_strict_increasing)
qed

lemma powi2_le_iff: "((2::rat) powi m \<le> 2 powi n) = (m \<le> n)"
  using powi2_less_iff [of n m] by (auto simp: not_less [symmetric])

lemma ilog2_unique:
  assumes "0 < a" "2 powi k \<le> a" "a < 2 powi (k + 1)"
  shows "ilog2 a = k"
proof -
  have "(2::rat) powi (ilog2 a) < 2 powi (k + 1)"
    using ilog2_bounds(1) [OF assms(1)] assms(3) by simp
  then have 1: "ilog2 a < k + 1" by (simp only: powi2_less_iff)
  have "(2::rat) powi k < 2 powi (ilog2 a + 1)"
    using ilog2_bounds(2) [OF assms(1)] assms(2) by simp
  then have 2: "k < ilog2 a + 1" by (simp only: powi2_less_iff)
  from 1 2 show ?thesis by simp
qed

lemma round_half_even_error: "\<bar>of_int (round_half_even y) - y\<bar> \<le> 1 / 2"
proof -
  have "of_int \<lfloor>y\<rfloor> \<le> y" and "y < of_int \<lfloor>y\<rfloor> + 1"
    by linarith+
  then show ?thesis
    unfolding round_half_even_def Let_def by (auto simp: abs_le_iff)
qed

lemma round_half_even_of_int [simp]: "round_half_even (of_int m) = m"
  by (simp add: round_half_even_def)

lemma round_half_even_nonneg: "0 \<le> y \<Longrightarrow> 0 \<le> round_half_even y"
  unfolding round_half_even_def Let_def by auto

text \<open>The rounded magnitude of a nonzero number, and what is known of it.\<close>

lemma round_double_magnitude:
  assumes "x \<noteq> 0"
  obtains e v where
    "e = max (ilog2 \<bar>x\<bar> - 52) (- 1074)"
    "v = of_int (round_half_even (\<bar>x\<bar> / 2 powi e)) * 2 powi e"
    "0 \<le> v"
    "\<bar>v - \<bar>x\<bar>\<bar> \<le> 2 powi e / 2"
    "round_double x =
       (if 2 ^ 1024 \<le> v then (if 0 < x then PosInf else NegInf)
        else Fin (if 0 < x then v else - v))"
proof -
  define e where "e = max (ilog2 \<bar>x\<bar> - 52) (- 1074)"
  define y where "y = \<bar>x\<bar> / 2 powi e"
  define v where "v = of_int (round_half_even y) * (2::rat) powi e"
  have pe: "(0::rat) < 2 powi e" by simp
  have "0 \<le> y" by (simp add: y_def)
  then have v0: "0 \<le> v"
    by (simp add: v_def round_half_even_nonneg)
  have "v - \<bar>x\<bar> = (of_int (round_half_even y) - y) * 2 powi e"
    by (simp add: v_def y_def algebra_simps)
  then have "\<bar>v - \<bar>x\<bar>\<bar> = \<bar>of_int (round_half_even y) - y\<bar> * 2 powi e"
    by (simp add: abs_mult)
  also have "\<dots> \<le> 1 / 2 * 2 powi e"
    by (rule mult_right_mono [OF round_half_even_error]) simp
  finally have err: "\<bar>v - \<bar>x\<bar>\<bar> \<le> 2 powi e / 2" by simp
  have rd: "round_double x =
       (if 2 ^ 1024 \<le> v then (if 0 < x then PosInf else NegInf)
        else Fin (if 0 < x then v else - v))"
    using assms by (simp add: round_double_def Let_def v_def y_def e_def)
  show thesis
    by (rule that [OF e_def _ v0 err rd]) (simp add: v_def y_def)
qed

lemma ulp_bound:
  assumes "0 < a"
  shows "2 powi (max (ilog2 a - 52) (- 1074)) \<le> a / 2 ^ 52 + 2 powi (- 1074)"
proof (cases "- 1074 \<le> ilog2 a - 52")
  case True
  have "(2::rat) powi (ilog2 a - 52) = 2 powi (ilog2 a) / 2 ^ 52"
    by (simp add: power_int_diff)
  also have "\<dots> \<le> a / 2 ^ 52"
    using ilog2_bounds(1) [OF assms] by (simp add: divide_right_mono)
  finally have 1: "(2::rat) powi (ilog2 a - 52) \<le> a / 2 ^ 52" .
  have 2: "(0::rat) \<le> 2 powi (- 1074)" by simp
  have m: "max (ilog2 a - 52) (- 1074) = ilog2 a - 52" using True by simp
  show ?thesis unfolding m using 1 2 by linarith
next
  case False
  then have m: "max (ilog2 a - 52) (- 1074) = - 1074" by simp
  have "0 \<le> a / 2 ^ 52" using assms by simp
  then show ?thesis unfolding m by linarith
qed

lemma round_double_error:
  assumes "round_double x = Fin r"
  shows "\<bar>r - x\<bar> \<le> \<bar>x\<bar> / 2 ^ 53 + 2 powi (- 1075)"
proof (cases "x = 0")
  case True
  with assms show ?thesis by (simp add: round_double_def)
next
  case False
  then obtain e v where e: "e = max (ilog2 \<bar>x\<bar> - 52) (- 1074)"
    and v0: "0 \<le> v" and err: "\<bar>v - \<bar>x\<bar>\<bar> \<le> 2 powi e / 2"
    and rd: "round_double x =
       (if 2 ^ 1024 \<le> v then (if 0 < x then PosInf else NegInf)
        else Fin (if 0 < x then v else - v))"
    by (rule round_double_magnitude)
  from rd assms have r: "r = (if 0 < x then v else - v)"
    by (auto split: if_splits)
  have "\<bar>r - x\<bar> = \<bar>v - \<bar>x\<bar>\<bar>"
    using False by (auto simp: r)
  also have "\<dots> \<le> 2 powi e / 2" by (rule err)
  also have "\<dots> \<le> (\<bar>x\<bar> / 2 ^ 52 + 2 powi (- 1074)) / 2"
    using ulp_bound [of "\<bar>x\<bar>"] False by (simp add: e)
  also have "\<dots> = \<bar>x\<bar> / 2 ^ 53 + 2 powi (- 1075)"
    by (simp add: power_int_diff [of 2 "- 1074" 1, simplified] add_divide_distrib)
  finally show ?thesis .
qed

lemma round_double_sign:
  assumes "round_double x = Fin r"
  shows "(0 \<le> x \<longrightarrow> 0 \<le> r) \<and> (x \<le> 0 \<longrightarrow> r \<le> 0)"
proof (cases "x = 0")
  case True
  with assms show ?thesis by (simp add: round_double_def)
next
  case False
  then obtain e v where v0: "0 \<le> v"
    and rd: "round_double x =
       (if 2 ^ 1024 \<le> v then (if 0 < x then PosInf else NegInf)
        else Fin (if 0 < x then v else - v))"
    by (rule round_double_magnitude)
  from rd assms have r: "r = (if 0 < x then v else - v)"
    by (auto split: if_splits)
  show ?thesis using v0 False by (auto simp: r)
qed

lemma round_double_finite:
  assumes "\<bar>x\<bar> \<le> 2 ^ 1023"
  shows "\<exists>r. round_double x = Fin r"
proof (cases "x = 0")
  case True
  then show ?thesis by (simp add: round_double_def)
next
  case False
  then obtain e v where e: "e = max (ilog2 \<bar>x\<bar> - 52) (- 1074)"
    and err: "\<bar>v - \<bar>x\<bar>\<bar> \<le> 2 powi e / 2"
    and rd: "round_double x =
       (if 2 ^ 1024 \<le> v then (if 0 < x then PosInf else NegInf)
        else Fin (if 0 < x then v else - v))"
    by (rule round_double_magnitude)
  define P :: rat where "P = 2 powi 1023"
  have P: "0 < P" by (simp add: P_def)
  have xP: "\<bar>x\<bar> \<le> P" using assms by (simp add: P_def)
  have "2 powi (ilog2 \<bar>x\<bar>) \<le> \<bar>x\<bar>"
    using False by (simp add: ilog2_bounds(1))
  then have "(2::rat) powi (ilog2 \<bar>x\<bar>) \<le> 2 powi 1023"
    using xP unfolding P_def by (rule order_trans)
  then have "ilog2 \<bar>x\<bar> \<le> 1023" by (simp only: powi2_le_iff)
  then have "e \<le> 1023" by (simp add: e)
  then have "(2::rat) powi e \<le> P" unfolding P_def by (simp only: powi2_le_iff)
  with err xP have "v \<le> P + P / 2" by linarith
  with P have "v < 2 * P" by simp
  also have "2 * P = 2 ^ 1024"
    unfolding P_def using power_int_add_1 [of 2 1023] by simp
  finally show ?thesis by (simp add: rd)
qed

lemma round_double_of_int:
  assumes "\<bar>n\<bar> < 2 ^ 53"
  shows "round_double (of_int n) = Fin (of_int n)"
proof (cases "n = 0")
  case True
  then show ?thesis by (simp add: round_double_def)
next
  case False
  define a :: rat where "a = \<bar>of_int n\<bar>"
  have a: "a = of_int \<bar>n\<bar>" by (simp add: a_def)
  have npos: "0 < \<bar>n\<bar>" using False by simp
  have apos: "0 < a" using False by (simp add: a_def)
  note B = bitlen_powi_bounds [OF npos]
  have k: "ilog2 a = bitlen \<bar>n\<bar> - 1"
    using B by (intro ilog2_unique apos) (simp_all add: a)
  have "(of_int \<bar>n\<bar> :: rat) < of_int (2 ^ 53)"
    using assms by (simp only: of_int_less_iff)
  then have "(of_int \<bar>n\<bar> :: rat) < 2 powi 53" by simp
  with B(1) have "(2::rat) powi (bitlen \<bar>n\<bar> - 1) < 2 powi 53" by (rule le_less_trans)
  then have b: "bitlen \<bar>n\<bar> - 1 < 53" by (simp only: powi2_less_iff)
  define e where "e = max (ilog2 a - 52) (- 1074)"
  have e0: "e \<le> 0" using b by (simp add: e_def k)
  define j where "j = nat (- e)"
  have pe: "(2::rat) powi e = 1 / 2 ^ j"
    using e0 by (simp add: j_def power_int_def field_simps)
  have "a / 2 powi e = of_int (\<bar>n\<bar> * 2 ^ j)"
    by (simp add: pe a)
  then have "round_half_even (a / 2 powi e) = \<bar>n\<bar> * 2 ^ j"
    by (simp only: round_half_even_of_int)
  then have v: "of_int (round_half_even (a / 2 powi e)) * 2 powi e = a"
    by (simp add: pe a)
  have "a < of_int (2 ^ 53)" unfolding a using assms by (simp only: of_int_less_iff)
  then have "a < 2 ^ 1024" by simp
  then show ?thesis
    using False v by (simp add: round_double_def Let_def a_def [symmetric] e_def [symmetric])
      (auto simp: a_def)
qed

section \<open>Facts about matching and scanning\<close>

declare re_scan.simps [simp del]

lemma star_rests_suffix: "t \<in> set (star_rests cs s) \<Longrightarrow> suffix t s"
  by (induction s) (auto simp: suffix_Cons split: if_splits)

lemma rx_match_suffix:
  "(g, t) \<in> set (rx_match r s) \<Longrightarrow> suffix t s"
  "(g, t) \<in> set (rx_match_seq rs s) \<Longrightarrow> suffix t s"
  "(g, t) \<in> set (rx_match_alt rs s) \<Longrightarrow> suffix t s"
proof (induction r s and rs s and rs s arbitrary: g t and g t and g t
    rule: rx_match_rx_match_seq_rx_match_alt.induct)
  case (9 r rs s)
  from "9.prems" obtain g1 t1 g2 where 1: "(g1, t1) \<in> set (rx_match r s)"
    and 2: "(g2, t) \<in> set (rx_match_seq rs t1)"
    by auto
  from "9.IH"(1) [OF 1] "9.IH"(2) [OF 1 refl 2] show ?case
    by (rule suffix_order.trans [rotated])
qed (auto simp: suffix_Cons star_rests_suffix split: list.splits if_splits)

lemma rx_match_length:
  "(g, t) \<in> set (rx_match r s) \<Longrightarrow> length t \<le> length s"
  by (rule suffix_length_le) (rule rx_match_suffix)

lemma suffix_take_append: "suffix t s \<Longrightarrow> take (length s - length t) s @ t = s"
  by (auto simp: suffix_def)

text \<open>A scan reads the whole text, each character once.\<close>

lemma tok_text_re_scan [simp]: "tok_text (re_scan r s) = s"
proof (induction r s rule: re_scan.induct)
  case (1 r)
  show ?case by (simp add: re_scan.simps)
next
  case (2 r x xs)
  show ?case
  proof (cases "rx_match r (x # xs)")
    case Nil
    with 2 show ?thesis by (simp add: re_scan.simps)
  next
    case (Cons gt rest)
    obtain g t where gt: "gt = (g, t)" by (cases gt)
    have "(g, t) \<in> set (rx_match r (x # xs))" by (simp add: Cons gt)
    then have "suffix t (x # xs)" by (rule rx_match_suffix)
    then have "take (length (x # xs) - length t) (x # xs) @ t = x # xs"
      by (rule suffix_take_append)
    with 2 Cons gt show ?thesis by (simp add: re_scan.simps)
  qed
qed

lemma tok_count_length:
  "length (tok_groups ts) = tok_count ts" "length (tok_texts ts) = tok_count ts"
  by (induction ts rule: tok_count.induct) simp_all

lemma length_re_findall: "length (re_findall r s) = re_count r s"
  by (simp add: re_findall_def re_count_def tok_count_length)

lemma no_match_tokens:
  "tok_count ts = 0 \<Longrightarrow> tok_sub repl ts = tok_text ts \<and> tok_groups ts = []"
  by (induction ts rule: tok_count.induct) simp_all


lemma tok_count_re_scan_le: "tok_count (re_scan r s) \<le> length s"
proof (induction r s rule: re_scan.induct)
  case (1 r)
  show ?case by (simp add: re_scan.simps)
next
  case (2 r x xs)
  show ?case
  proof (cases "rx_match r (x # xs)")
    case Nil
    with 2 show ?thesis by (simp add: re_scan.simps)
  next
    case (Cons gt rest)
    obtain g t where gt: "gt = (g, t)" by (cases gt)
    show ?thesis
    proof (cases "length t < length (x # xs)")
      case True
      with 2(2) [OF Cons gt [symmetric]] Cons gt show ?thesis
        by (simp add: re_scan.simps)
    next
      case False
      with 2(3) [OF Cons gt [symmetric]] Cons gt show ?thesis
        by (simp add: re_scan.simps)
    qed
  qed
qed

lemma re_count_le: "re_count r s \<le> length s"
  by (simp add: re_count_def tok_count_re_scan_le)

text \<open>Every match a scan records is the match reported at the start of some suffix.\<close>

lemma re_scan_Match_origin:
  "Match w g \<in> set (re_scan r s) \<Longrightarrow>
   \<exists>s' t rest. suffix s' s \<and> rx_match r s' = (g, t) # rest \<and> s' = w @ t \<and> w \<noteq> []"
proof (induction r s rule: re_scan.induct)
  case (1 r)
  then show ?case by (simp add: re_scan.simps)
next
  case (2 r x xs)
  show ?case
  proof (cases "rx_match r (x # xs)")
    case Nil
    with 2(1) [OF Nil] 2(4) show ?thesis
      by (auto simp: re_scan.simps suffix_Cons)
  next
    case (Cons gt rest)
    obtain g' t where gt: "gt = (g', t)" by (cases gt)
    show ?thesis
    proof (cases "length t < length (x # xs)")
      case True
      have st: "suffix t (x # xs)"
        by (rule rx_match_suffix(1) [of g' t r]) (simp add: Cons gt)
      from 2(4) Cons gt True
      have "Match w g = Match (take (length (x # xs) - length t) (x # xs)) g' \<or>
          Match w g \<in> set (re_scan r t)"
        by (simp add: re_scan.simps)
      then show ?thesis
      proof
        assume "Match w g = Match (take (length (x # xs) - length t) (x # xs)) g'"
        then have w: "w = take (length (x # xs) - length t) (x # xs)" and g: "g = g'" by simp_all
        have "x # xs = w @ t" unfolding w by (rule suffix_take_append [OF st, symmetric])
        moreover have "w \<noteq> []" using True w by auto
        moreover have "rx_match r (x # xs) = (g, t) # rest" by (simp add: Cons gt g)
        moreover have "suffix (x # xs) (x # xs)" by simp
        ultimately show ?thesis by blast
      next
        assume "Match w g \<in> set (re_scan r t)"
        from 2(2) [OF Cons gt [symmetric] True this] obtain s' t' rest' where
          "suffix s' t" "rx_match r s' = (g, t') # rest'" "s' = w @ t'" "w \<noteq> []"
          by blast
        moreover from \<open>suffix s' t\<close> st have "suffix s' (x # xs)"
          by (rule suffix_order.trans)
        ultimately show ?thesis by blast
      qed
    next
      case False
      with 2(3) [OF Cons gt [symmetric] False] 2(4) Cons gt show ?thesis
        by (auto simp: re_scan.simps suffix_Cons)
    qed
  qed
qed

lemma tok_split_sublist:
  "p \<in> set (tok_split cur ts) \<Longrightarrow> sublist p (rev cur @ tok_text ts)"
proof (induction cur ts rule: tok_split.induct)
  case (1 cur)
  then show ?case by simp
next
  case (2 cur c ts)
  then show ?case by simp
next
  case (3 cur w g ts)
  from "3.prems" have "p = rev cur \<or> p \<in> set (tok_split [] ts)" by simp
  then show ?case
  proof
    assume "p = rev cur"
    then show ?thesis by (simp add: sublist_append_rightI)
  next
    assume "p \<in> set (tok_split [] ts)"
    then have "sublist p (tok_text ts)" using "3.IH" by simp
    then show ?thesis by (simp add: sublist_append)
  qed
qed

lemma re_split_sublist: "p \<in> set (re_split r s) \<Longrightarrow> sublist p s"
  using tok_split_sublist [of p "[]" "re_scan r s"] by (simp add: re_split_def)

lemma tok_split_length: "length (tok_split cur ts) = Suc (tok_count ts)"
  by (induction cur ts rule: tok_split.induct) simp_all

lemma re_split_length: "length (re_split r s) \<le> Suc (length s)"
  by (simp add: re_split_def tok_split_length tok_count_re_scan_le)

section \<open>Facts about the quote pattern\<close>

lemma quotemarks_styles: "ALL_QUOTEMARKS_RE = Alt (map quote_style_rx quote_styles)"
  by (simp add: ALL_QUOTEMARKS_RE_def quote_style_rx_def quote_styles_def)

lemma close_at_Cons:
  "length t \<le> length xs \<Longrightarrow>
   close_at cl (x # xs) t = map (\<lambda>(g, u). (x # g, u)) (close_at cl xs t)"
  by (auto simp: close_at_def take_Cons' split: list.splits)

lemma close_at_self: "close_at cl xs xs = (case xs of [] \<Rightarrow> [] | c # u \<Rightarrow> if c = cl then [([], u)] else [])"
  by (simp add: close_at_def split: list.splits)

lemma closes_star:
  "op \<noteq> cl \<Longrightarrow>
   concat (map (close_at cl xs) (star_rests (NoneOf [Ch op]) xs)) = quote_closes op cl xs"
proof (induction xs)
  case Nil
  then show ?case by (simp add: close_at_def)
next
  case (Cons x xs)
  have len: "\<And>t. t \<in> set (star_rests (NoneOf [Ch op]) xs) \<Longrightarrow> length t \<le> length xs"
    by (rule suffix_length_le) (rule star_rests_suffix)
  have "concat (map (close_at cl (x # xs)) (star_rests (NoneOf [Ch op]) xs)) =
      concat (map (\<lambda>t. map (\<lambda>(g, u). (x # g, u)) (close_at cl xs t)) (star_rests (NoneOf [Ch op]) xs))"
    by (rule arg_cong [where f = concat], rule map_cong [OF refl]) (simp add: close_at_Cons len)
  also have "\<dots> = map (\<lambda>(g, u). (x # g, u)) (concat (map (close_at cl xs) (star_rests (NoneOf [Ch op]) xs)))"
    by (simp add: map_concat comp_def)
  finally have *: "concat (map (close_at cl (x # xs)) (star_rests (NoneOf [Ch op]) xs)) =
      map (\<lambda>(g, u). (x # g, u)) (quote_closes op cl xs)"
    using Cons by simp
  show ?case
  proof (cases "x = op")
    case True
    with Cons.prems show ?thesis by (simp add: close_at_self)
  next
    case False
    then show ?thesis by (simp add: * close_at_self)
  qed
qed

lemma rx_match_seq_Lit:
  "rx_match_seq [Lit cl] t = (case t of [] \<Rightarrow> [] | c # u \<Rightarrow> if c = cl then [([], u)] else [])"
  by (simp split: list.splits)

lemma quote_style_match:
  assumes "op \<noteq> cl"
  shows "rx_match (quote_style_rx (op, cl)) s =
     (case s of [] \<Rightarrow> [] | x # xs \<Rightarrow> if x = op then quote_closes op cl xs else [])"
proof (cases s)
  case Nil
  then show ?thesis by (simp add: quote_style_rx_def)
next
  case (Cons x xs)
  show ?thesis
  proof (cases "x = op")
    case False
    then show ?thesis by (simp add: Cons quote_style_rx_def)
  next
    case True
    have "rx_match (quote_style_rx (op, cl)) (op # xs) =
        concat (map (\<lambda>t. map (\<lambda>(g', u). (take (length xs - length t) xs @ g', u))
           (rx_match_seq [Lit cl] t)) (star_rests (NoneOf [Ch op]) xs))"
      by (simp add: quote_style_rx_def comp_def del: rx_match_seq.simps(2)
          add: rx_match_seq.simps(2) [of "Lit op"] rx_match_seq.simps(2) [of "Grp r" for r])
    also have "\<dots> = concat (map (close_at cl xs) (star_rests (NoneOf [Ch op]) xs))"
      by (rule arg_cong [where f = concat], rule map_cong [OF refl])
        (simp add: rx_match_seq_Lit close_at_def split: list.splits)
    finally show ?thesis
      using assms True by (simp add: Cons closes_star)
  qed
qed


lemma quote_closes_set:
  "op \<noteq> cl \<Longrightarrow>
   ((g, u) \<in> set (quote_closes op cl xs)) = (xs = g @ cl # u \<and> op \<notin> set g)"
proof (induction xs arbitrary: g)
  case Nil
  then show ?case by simp
next
  case (Cons x xs)
  show ?case
  proof (cases g)
    case Nil
    then show ?thesis using Cons.prems by auto
  next
    case (Cons y g')
    then show ?thesis using Cons.prems Cons.IH [of g'] by auto
  qed
qed

lemma takeWhile_has_close:
  "op \<notin> set us \<Longrightarrow> cl \<noteq> op \<Longrightarrow> cl \<in> set (takeWhile (\<lambda>c. c \<noteq> op) (us @ cl # t))"
  by (induction us) auto

lemma quote_closes_Nil:
  assumes "op \<noteq> cl" and "quote_closes op cl xs = []"
  shows "cl \<notin> set (takeWhile (\<lambda>c. c \<noteq> op) xs)"
proof
  assume "cl \<in> set (takeWhile (\<lambda>c. c \<noteq> op) xs)"
  then obtain g w where gw: "takeWhile (\<lambda>c. c \<noteq> op) xs = g @ cl # w"
    by (auto dest: split_list)
  have "set g \<subseteq> set (takeWhile (\<lambda>c. c \<noteq> op) xs)" by (auto simp: gw)
  then have "op \<notin> set g" by (auto dest: set_takeWhileD)
  moreover have "xs = g @ cl # (w @ dropWhile (\<lambda>c. c \<noteq> op) xs)"
    using takeWhile_dropWhile_id [of "\<lambda>c. c \<noteq> op" xs] by (simp add: gw)
  ultimately have "(g, w @ dropWhile (\<lambda>c. c \<noteq> op) xs) \<in> set (quote_closes op cl xs)"
    using assms(1) by (simp add: quote_closes_set)
  with assms(2) show False by simp
qed

lemma quote_closes_hd:
  "op \<noteq> cl \<Longrightarrow> quote_closes op cl xs = (g, u) # rest \<Longrightarrow>
   cl \<notin> set (takeWhile (\<lambda>c. c \<noteq> op) u)"
proof (induction xs arbitrary: g rest)
  case Nil
  then show ?case by simp
next
  case (Cons x xs)
  show ?case
  proof (cases "x \<noteq> op \<and> quote_closes op cl xs \<noteq> []")
    case True
    then obtain g' u' rest' where h: "quote_closes op cl xs = (g', u') # rest'"
      by (cases "quote_closes op cl xs") auto
    with True Cons.prems(2) have "u' = u" by simp
    with Cons.IH [OF Cons.prems(1)] h show ?thesis by simp
  next
    case False
    with Cons.prems have "u = xs" and "quote_closes op cl xs = []"
      by (auto split: if_splits)
    then show ?thesis using quote_closes_Nil [OF Cons.prems(1)] by simp
  qed
qed

lemma quote_span_unique:
  assumes "g @ cl # t = g' @ cl # t'" and "cl \<noteq> op"
    and "op \<notin> set g" "op \<notin> set g'"
    and "cl \<notin> set (takeWhile (\<lambda>c. c \<noteq> op) t)" "cl \<notin> set (takeWhile (\<lambda>c. c \<noteq> op) t')"
  shows "g = g' \<and> t = t'"
proof -
  from assms(1) obtain us where
    "(g = g' @ us \<and> us @ cl # t = cl # t') \<or> (g @ us = g' \<and> cl # t = us @ cl # t')"
    by (auto simp: append_eq_append_conv2)
  then show ?thesis
  proof
    assume h: "g = g' @ us \<and> us @ cl # t = cl # t'"
    show ?thesis
    proof (cases us)
      case Nil
      with h show ?thesis by simp
    next
      case (Cons c us')
      with h have t': "t' = us' @ cl # t" and "op \<notin> set us'" using assms(3) by auto
      then have "cl \<in> set (takeWhile (\<lambda>c. c \<noteq> op) t')"
        using assms(2) takeWhile_has_close [of op us' cl t] by simp
      with assms(6) show ?thesis by simp
    qed
  next
    assume h: "g @ us = g' \<and> cl # t = us @ cl # t'"
    show ?thesis
    proof (cases us)
      case Nil
      with h show ?thesis by simp
    next
      case (Cons c us')
      with h have t: "t = us' @ cl # t'" and "op \<notin> set us'" using assms(4) by auto
      then have "cl \<in> set (takeWhile (\<lambda>c. c \<noteq> op) t)"
        using assms(2) takeWhile_has_close [of op us' cl t'] by simp
      with assms(5) show ?thesis by simp
    qed
  qed
qed

lemma quote_match:
  "rx_match ALL_QUOTEMARKS_RE s =
     (case s of [] \<Rightarrow> []
      | x # xs \<Rightarrow> (case map_of quote_styles x of None \<Rightarrow> [] | Some cl \<Rightarrow> quote_closes x cl xs))"
  by (cases s) (simp_all add: quotemarks_styles quote_styles_def quote_style_match)


lemma quote_styles_facts:
  "(op, cl) \<in> set quote_styles \<Longrightarrow> op \<noteq> cl"
  "(op, cl) \<in> set quote_styles \<Longrightarrow> map_of quote_styles op = Some cl"
proof -
  show "(op, cl) \<in> set quote_styles \<Longrightarrow> op \<noteq> cl"
    by (auto simp: quote_styles_def)
  show "(op, cl) \<in> set quote_styles \<Longrightarrow> map_of quote_styles op = Some cl"
    by (rule map_of_is_SomeI) (simp_all add: quote_styles_def)
qed

text \<open>The match reported at a position is a span of one style, closed as late as it can be.\<close>

lemma quote_match_head:
  assumes m: "rx_match ALL_QUOTEMARKS_RE s = (g, t) # rest"
  shows "\<exists>op cl. (op, cl) \<in> set quote_styles \<and> s = op # g @ cl # t \<and> op \<notin> set g \<and>
         cl \<notin> set (takeWhile (\<lambda>c. c \<noteq> op) t)"
proof -
  from m obtain op xs cl where s: "s = op # xs" and cl: "map_of quote_styles op = Some cl"
    and q: "quote_closes op cl xs = (g, t) # rest"
    by (auto simp: quote_match split: list.splits option.splits)
  from cl have st: "(op, cl) \<in> set quote_styles" by (rule map_of_SomeD)
  from q have "(g, t) \<in> set (quote_closes op cl xs)" by simp
  then have "xs = g @ cl # t" "op \<notin> set g"
    using quote_styles_facts(1) [OF st] by (simp_all add: quote_closes_set)
  moreover have "cl \<notin> set (takeWhile (\<lambda>c. c \<noteq> op) t)"
    using quote_styles_facts(1) [OF st] q by (rule quote_closes_hd)
  ultimately show ?thesis using st s by blast
qed

text \<open>Every such span is the match reported where it starts.\<close>

lemma quote_span_matched:
  assumes st: "(op, cl) \<in> set quote_styles" and g: "op \<notin> set g"
    and t: "cl \<notin> set (takeWhile (\<lambda>c. c \<noteq> op) t)"
  shows "\<exists>rest. rx_match ALL_QUOTEMARKS_RE (op # g @ cl # t) = (g, t) # rest"
proof -
  note ne = quote_styles_facts(1) [OF st]
  have m: "rx_match ALL_QUOTEMARKS_RE (op # g @ cl # t) = quote_closes op cl (g @ cl # t)"
    by (simp add: quote_match quote_styles_facts(2) [OF st])
  have "(g, t) \<in> set (quote_closes op cl (g @ cl # t))"
    using ne g by (simp add: quote_closes_set)
  then obtain g' t' rest where h: "quote_closes op cl (g @ cl # t) = (g', t') # rest"
    by (cases "quote_closes op cl (g @ cl # t)") auto
  then have "(g', t') \<in> set (quote_closes op cl (g @ cl # t))" by simp
  then have 1: "g @ cl # t = g' @ cl # t'" "op \<notin> set g'"
    using ne by (simp_all add: quote_closes_set)
  have 2: "cl \<notin> set (takeWhile (\<lambda>c. c \<noteq> op) t')"
    using ne h by (rule quote_closes_hd)
  have "g = g' \<and> t = t'"
    using 1(1) ne [symmetric] g 1(2) t 2 by (rule quote_span_unique)
  with h m show ?thesis by simp
qed


lemma re_scan_eq_Nil: "(re_scan r s = []) = (s = [])"
  by (cases s) (auto simp: re_scan.simps split: list.splits)

lemma re_scan_Match_head:
  assumes "re_scan r s = Match w g # ts"
  shows "\<exists>t rest. rx_match r s = (g, t) # rest \<and> s = w @ t \<and> w \<noteq> [] \<and> ts = re_scan r t"
proof (cases s)
  case Nil
  with assms show ?thesis by (simp add: re_scan.simps)
next
  case (Cons x xs)
  with assms obtain t rest where m: "rx_match r s = (g, t) # rest"
    and l: "length t < length s" and w: "w = take (length s - length t) s" and ts: "ts = re_scan r t"
    by (auto simp: re_scan.simps split: list.splits if_splits)
  from m have "(g, t) \<in> set (rx_match r s)" by simp
  then have "suffix t s" by (rule rx_match_suffix)
  then have "s = w @ t" unfolding w by (simp add: suffix_take_append)
  moreover from l w have "w \<noteq> []" by auto
  ultimately show ?thesis using m ts by blast
qed

lemma tok_sub_single:
  assumes "tok_sub [e] ts = [e]"
  shows "ts = [Plain e] \<or> (\<exists>w g. ts = [Match w g])"
proof (cases ts)
  case Nil
  with assms show ?thesis by simp
next
  case (Cons a ts')
  from assms Cons have "tok_sub [e] ts' = []" by (cases a) auto
  then have "ts' = []"
  proof (cases ts')
    case (Cons b ts'')
    with \<open>tok_sub [e] ts' = []\<close> show ?thesis by (cases b) auto
  qed
  with assms Cons show ?thesis by (cases a) auto
qed

lemma whole_quote_shape:
  assumes sq: "separate_quotes document = (matrix, quotes)" and m: "matrix = ELLIPSIS"
  shows "(document = ELLIPSIS \<and> quotes = []) \<or>
         (\<exists>op cl. (op, cl) \<in> set quote_styles \<and> document = op # quotes @ [cl] \<and> op \<notin> set quotes)"
proof -
  define ts where "ts = re_scan ALL_QUOTEMARKS_RE document"
  from sq m have sub: "tok_sub [0x2026] ts = [0x2026]"
    and q: "quotes = str_join [0x2026] (tok_groups ts)"
    by (simp_all add: separate_quotes_def re_sub_def re_findall_groups_def ELLIPSIS_def ts_def Let_def)
  have whole: "tok_text ts = document" by (simp add: ts_def)
  from tok_sub_single [OF sub] show ?thesis
  proof
    assume "ts = [Plain 0x2026]"
    with whole q show ?thesis by (auto simp: ELLIPSIS_def)
  next
    assume "\<exists>w g. ts = [Match w g]"
    then obtain w g where ts: "ts = [Match w g]" by blast
    then have "re_scan ALL_QUOTEMARKS_RE document = Match w g # []" by (simp add: ts_def)
    from re_scan_Match_head [OF this] obtain t rest where
      h: "rx_match ALL_QUOTEMARKS_RE document = (g, t) # rest"
      and e: "[] = re_scan ALL_QUOTEMARKS_RE t"
      by blast
    from e [symmetric] have "t = []" by (simp only: re_scan_eq_Nil)
    with quote_match_head [OF h] q ts show ?thesis by auto
  qed
qed

lemma re_sub_no_match: "re_count r s = 0 \<Longrightarrow> re_sub r repl s = s"
  using no_match_tokens [of "re_scan r s" repl] by (simp add: re_count_def re_sub_def)


lemma tok_sub_length:
  "(\<And>w g. Match w g \<in> set ts \<Longrightarrow> w \<noteq> []) \<Longrightarrow> length repl \<le> 1 \<Longrightarrow>
   length (tok_sub repl ts) \<le> length (tok_text ts)"
proof (induction repl ts rule: tok_sub.induct)
  case (3 repl w g ts)
  have "w \<noteq> []" by (rule "3.prems"(1) [of w g]) simp
  then have "1 \<le> length w" by (cases w) simp_all
  moreover have "length (tok_sub repl ts) \<le> length (tok_text ts)"
    by (rule "3.IH") (use "3.prems" in auto)
  ultimately show ?case using "3.prems"(2) by simp
qed auto

lemma re_sub_length: "length repl \<le> 1 \<Longrightarrow> length (re_sub r repl s) \<le> length s"
  using tok_sub_length [of "re_scan r s" repl] re_scan_Match_origin [of _ _ r s]
  by (fastforce simp: re_sub_def)

lemma str_join_length:
  "length (str_join sep gs) + length sep \<le> sum_list (map length gs) + length sep * length gs
   \<or> gs = []"
  by (induction sep gs rule: str_join.induct) auto

lemma groups_sum:
  "(\<And>w g. Match w g \<in> set ts \<Longrightarrow> length g < length w) \<Longrightarrow>
   sum_list (map length (tok_groups ts)) + tok_count ts \<le> length (tok_text ts)"
proof (induction ts rule: tok_groups.induct)
  case (3 w g ts)
  have "length g < length w" by (rule "3.prems" [of w g]) simp
  moreover have "sum_list (map length (tok_groups ts)) + tok_count ts \<le> length (tok_text ts)"
    by (rule "3.IH") (use "3.prems" in auto)
  ultimately show ?case by simp
qed auto

lemma quote_token:
  assumes "Match w g \<in> set (re_scan ALL_QUOTEMARKS_RE s)"
  shows "length w = length g + 2" and "sublist g s"
proof -
  from re_scan_Match_origin [OF assms] obtain s' t rest where
    suf: "suffix s' s" and m: "rx_match ALL_QUOTEMARKS_RE s' = (g, t) # rest"
    and s': "s' = w @ t" by blast
  from quote_match_head [OF m] obtain op cl where "s' = op # g @ cl # t" by blast
  with s' have w: "w = op # g @ [cl]" by simp
  then show "length w = length g + 2" by simp
  have "sublist g s'" unfolding s' w by (simp add: sublist_Cons_right sublist_append)
  moreover from suf have "sublist s' s" by (rule suffix_imp_sublist)
  ultimately show "sublist g s" by (rule sublist_order.order.trans)
qed

lemma separate_quotes_length:
  assumes "separate_quotes document = (matrix, quotes)"
  shows "length matrix \<le> length document" and "length quotes \<le> length document"
proof -
  define ts where "ts = re_scan ALL_QUOTEMARKS_RE document"
  from assms have m: "matrix = re_sub ALL_QUOTEMARKS_RE ELLIPSIS document"
    and q: "quotes = str_join ELLIPSIS (tok_groups ts)"
    by (simp_all add: separate_quotes_def Let_def re_findall_groups_def ts_def)
  show "length matrix \<le> length document"
    unfolding m by (rule re_sub_length) (simp add: ELLIPSIS_def)
  have "sum_list (map length (tok_groups ts)) + tok_count ts \<le> length (tok_text ts)"
    by (rule groups_sum) (use quote_token(1) in \<open>auto simp: ts_def\<close>)
  moreover have "length (tok_groups ts) = tok_count ts" by (simp add: tok_count_length)
  ultimately show "length quotes \<le> length document"
    using str_join_length [of ELLIPSIS "tok_groups ts"]
    by (auto simp: q ts_def ELLIPSIS_def)
qed

section \<open>Facts about the detector's steps\<close>

lemma raise_bind_simps [simp]:
  "raise_bind (Inl e) f = Inl e" "raise_bind (Inr v) f = f v"
  by (simp_all add: raise_bind_def)

lemma raise_bind_assoc:
  "raise_bind (raise_bind m g) f = raise_bind m (\<lambda>x. raise_bind (g x) f)"
  by (simp add: raise_bind_def split: sum.splits)

lemma features_counts:
  "canto_feature_count (get_segment_features seg) =
     int (re_count CANTO_FEATURE_RE seg) - int (re_count CANTO_EXCLUDE_RE seg)"
  "swc_feature_count (get_segment_features seg) =
     int (re_count SWC_FEATURE_RE seg) - int (re_count SWC_EXCLUDE_RE seg)"
  "han_length (get_segment_features seg) = hant_length seg"
  by (simp_all add: get_segment_features_def Let_def length_re_findall)

text \<open>
  The segment judge, with each product and its rounding to an integer taken as one step:
  the form every later proof starts from.
\<close>

lemma judge_single_segment_steps:
  fixes self seg
  defines "c \<equiv> int (re_count CANTO_FEATURE_RE seg) - int (re_count CANTO_EXCLUDE_RE seg)"
    and "s \<equiv> int (re_count SWC_FEATURE_RE seg) - int (re_count SWC_EXCLUDE_RE seg)"
    and "L \<equiv> hant_length seg"
  shows "judge_single_segment self seg =
      raise_bind (raise_bind (float_mul_int (swc_tolerance self) L) math_floor) (\<lambda>swc_floor.
      raise_bind (raise_bind (float_mul_int (canto_tolerance self) L) math_floor) (\<lambda>canto_floor.
        if c + s = 0 \<or> (c \<le> canto_floor \<and> s \<le> swc_floor) then Inr ''Neutral''
        else
          raise_bind (raise_bind (float_mul_int (canto_presence self) L) math_ceil) (\<lambda>canto_ceil.
          raise_bind (raise_bind (float_mul_int (swc_presence self) L) math_ceil) (\<lambda>swc_ceil.
          raise_bind (int_truediv c (c + s)) (\<lambda>c1.
          raise_bind (int_truediv s (c + s)) (\<lambda>s1.
          raise_bind (int_truediv s (c + s)) (\<lambda>s2.
          raise_bind (int_truediv c (c + s)) (\<lambda>c2.
            if float_gt (float_sub c1 s1) (float_lit (9 / 10)) \<and> \<not> swc_ceil \<le> s
            then Inr ''Cantonese''
            else if float_gt (float_sub s2 c2) (float_lit (9 / 10)) \<and> \<not> canto_ceil \<le> c
            then Inr ''SWC'' else Inr ''Mixed''))))))))"
  unfolding judge_single_segment_def Let_def features_counts c_def s_def L_def raise_bind_assoc
  by (rule refl)

lemma times_floor_alt:
  "times_floor t L =
     (case raise_bind (float_mul_int t L) math_floor of Inl _ \<Rightarrow> None | Inr n \<Rightarrow> Some n)"
  by (simp add: times_floor_def raise_bind_def split: sum.splits)

lemma times_ceil_alt:
  "times_ceil t L =
     (case raise_bind (float_mul_int t L) math_ceil of Inl _ \<Rightarrow> None | Inr n \<Rightarrow> Some n)"
  by (simp add: times_ceil_def raise_bind_def split: sum.splits)

lemma no_zero_division_steps:
  "float_mul_int t L \<noteq> Inl ZeroDivisionError"
  "math_floor x \<noteq> Inl ZeroDivisionError"
  "math_ceil x \<noteq> Inl ZeroDivisionError"
  by (simp add: float_mul_int_def float_of_int_def raise_bind_def
      split: pyfloat.splits sum.splits, (cases x; simp)+)

lemma int_truediv_zero_division: "(int_truediv a b = Inl ZeroDivisionError) = (b = 0)"
  by (simp add: int_truediv_def split: pyfloat.splits)

lemma raise_bind_eq_Inl:
  "(raise_bind m f = Inl e) = (m = Inl e \<or> (\<exists>v. m = Inr v \<and> f v = Inl e))"
  by (cases m) simp_all

lemma round_double_0 [simp]: "round_double 0 = Fin 0"
  by (simp add: round_double_def)

lemma float_of_int_0 [simp]: "float_of_int 0 = Inr (Fin 0)"
  by (simp add: float_of_int_def)

lemma float_mul_int_0: "is_finite t \<Longrightarrow> float_mul_int t 0 = Inr (Fin 0)"
  by (cases t) (simp_all add: float_mul_int_def is_finite_def)

lemma float_lit_finite: "\<bar>q\<bar> \<le> 2 ^ 1023 \<Longrightarrow> is_finite (float_lit q)"
  using round_double_finite [of q] by (auto simp: float_lit_def is_finite_def)


lemma re_count_Nil [simp]: "re_count r [] = 0"
  by (simp add: re_count_def re_scan.simps)

lemma hant_length_Nil [simp]: "hant_length [] = 0"
  by (simp add: hant_length_def)

lemma judge_single_segment_empty:
  assumes "is_finite (canto_tolerance self)" "is_finite (swc_tolerance self)"
  shows "judge_single_segment self [] = Inr ''Neutral''"
  unfolding judge_single_segment_steps using assms
  by (simp add: float_mul_int_0)

lemma Counter_Nil [simp]: "Counter [] = []"
  by (simp add: Counter_def)



lemma separate_quotes_Nil [simp]: "separate_quotes [] = ([], [])"
  by (simp add: separate_quotes_def re_sub_def re_findall_groups_def re_scan.simps)


lemma str_strip_empty_iff: "(str_strip x = []) = whitespace_only x"
proof -
  let ?d = "dropWhile str_isspace x"
  have "(str_strip x = []) = (dropWhile str_isspace (rev ?d) = [])"
    by (simp add: str_strip_def)
  also have "\<dots> = (\<forall>c \<in> set ?d. str_isspace c)"
    by (simp only: dropWhile_eq_Nil_conv set_rev)
  also have "\<dots> = (?d = [])"
  proof (cases "?d = []")
    case True
    then show ?thesis by (simp del: dropWhile_eq_Nil_conv)
  next
    case False
    then have "\<not> str_isspace (hd ?d)" by (rule hd_dropWhile)
    moreover have "hd ?d \<in> set ?d" using False by simp
    ultimately show ?thesis using False by blast
  qed
  also have "\<dots> = whitespace_only x"
    by (simp only: dropWhile_eq_Nil_conv whitespace_only_def list_all_iff)
  finally show ?thesis .
qed

lemma counter_get_add:
  "counter_get (counter_add x c) k = counter_get c k + (if k = x then 1 else 0)"
  by (induction c) (auto simp: counter_get_def)

lemma counter_sum_add:
  "sum_list (counter_values (counter_add x c)) = Suc (sum_list (counter_values c))"
  by (induction c) (auto simp: counter_values_def)

lemma counter_foldl:
  "counter_get (foldl (\<lambda>c x. counter_add x c) c xs) k = counter_get c k + count_list xs k"
  "sum_list (counter_values (foldl (\<lambda>c x. counter_add x c) c xs)) =
     sum_list (counter_values c) + length xs"
  by (induction xs arbitrary: c) (simp_all add: counter_get_add counter_sum_add)

lemma Counter_get: "counter_get (Counter xs) k = count_list xs k"
  by (simp only: Counter_def counter_foldl) (simp add: counter_get_def)

lemma Counter_sum: "sum_list (counter_values (Counter xs)) = length xs"
  by (simp only: Counter_def counter_foldl) (simp add: counter_values_def)


subsection \<open>Evaluating the judge with the default thresholds\<close>

lemma round_double_near:
  assumes "\<bar>x\<bar> \<le> 2 ^ 1023"
  obtains r where "round_double x = Fin r" and "\<bar>r - x\<bar> \<le> \<bar>x\<bar> / 1000 + 1 / 1000000"
proof -
  from round_double_finite [OF assms] obtain r where r: "round_double x = Fin r" ..
  have "\<bar>r - x\<bar> \<le> \<bar>x\<bar> / 2 ^ 53 + 2 powi (- 1075)"
    by (rule round_double_error [OF r])
  moreover have "\<bar>x\<bar> / 2 ^ 53 \<le> \<bar>x\<bar> / 1000"
    by (rule divide_left_mono) simp_all
  moreover have "(2::rat) powi (- 1075) \<le> 2 powi (- 20)"
    by (simp only: powi2_le_iff)
  moreover have "(2::rat) powi (- 20) \<le> 1 / 1000000"
    by (simp add: power_int_minus_divide)
  ultimately have "\<bar>r - x\<bar> \<le> \<bar>x\<bar> / 1000 + 1 / 1000000" by linarith
  with r show thesis by (rule that)
qed

lemma float_of_int_small: "\<bar>n\<bar> < 2 ^ 53 \<Longrightarrow> float_of_int n = Inr (Fin (of_int n))"
  by (simp add: float_of_int_def round_double_of_int)

lemma float_mul_int_small_positive:
  assumes q: "1 / 100 \<le> q" "q \<le> 3 / 100" and L: "1 \<le> L" "L \<le> 16"
  obtains r where "float_mul_int (float_lit q) L = Inr (Fin r)" and "0 < r" and "r < 1"
proof -
  have "\<bar>q\<bar> \<le> 2 ^ 1023" using q by simp
  then obtain a where a: "round_double q = Fin a" and ea: "\<bar>a - q\<bar> \<le> \<bar>q\<bar> / 1000 + 1 / 1000000"
    by (rule round_double_near)
  from ea q have a1: "9 / 1000 \<le> a" and a2: "a \<le> 31 / 1000" by linarith+
  define y :: rat where "y = of_int L"
  have y: "1 \<le> y" "y \<le> 16" using L by (simp_all add: y_def)
  have x1: "9 / 1000 \<le> a * y"
    using mult_mono [of "9 / 1000" a 1 y] a1 y by simp
  have x2: "a * y \<le> 496 / 1000"
    using mult_mono [of a "31 / 1000" y 16] a1 a2 y by simp
  have "\<bar>a * y\<bar> \<le> 2 ^ 1023" using x1 x2 by simp
  then obtain r where r: "round_double (a * y) = Fin r"
    and er: "\<bar>r - a * y\<bar> \<le> \<bar>a * y\<bar> / 1000 + 1 / 1000000"
    by (rule round_double_near)
  have "\<bar>L\<bar> < 2 ^ 53" using L by simp
  then have "float_mul_int (float_lit q) L = Inr (Fin r)"
    by (simp add: float_mul_int_def float_of_int_small float_lit_def a r [unfolded y_def])
  moreover from er x1 x2 have "0 < r" "r < 1" by linarith+
  ultimately show thesis by (rule that)
qed

lemma default_floor:
  assumes "1 \<le> L" "L \<le> 16"
  shows "raise_bind (float_mul_int (float_lit (1 / 100)) L) math_floor = Inr 0"
proof -
  obtain r where "float_mul_int (float_lit (1 / 100)) L = Inr (Fin r)" "0 < r" "r < 1"
    by (rule float_mul_int_small_positive [of "1 / 100" L]) (use assms in simp_all)
  then show ?thesis by (simp add: floor_eq_iff)
qed

lemma default_ceil:
  assumes "1 \<le> L" "L \<le> 16"
  shows "raise_bind (float_mul_int (float_lit (3 / 100)) L) math_ceil = Inr 1"
proof -
  obtain r where "float_mul_int (float_lit (3 / 100)) L = Inr (Fin r)" "0 < r" "r < 1"
    by (rule float_mul_int_small_positive [of "3 / 100" L]) (use assms in simp_all)
  then show ?thesis by (simp add: ceiling_eq_iff)
qed

lemma round_double_1 [simp]: "round_double 1 = Fin 1" "round_double (- 1) = Fin (- 1)"
  using round_double_of_int [of 1] round_double_of_int [of "- 1"] by simp_all

lemma int_truediv_self: "c \<noteq> 0 \<Longrightarrow> int_truediv c c = Inr (Fin 1)"
  by (simp add: int_truediv_def)

lemma int_truediv_0: "c \<noteq> 0 \<Longrightarrow> int_truediv 0 c = Inr (Fin 0)"
  by (simp add: int_truediv_def)

lemma float_lit_09:
  obtains b where "float_lit (9 / 10) = Fin b" and "89 / 100 \<le> b" and "b \<le> 91 / 100"
proof -
  have "\<bar>9 / 10 :: rat\<bar> \<le> 2 ^ 1023" by simp
  then obtain b where b: "round_double (9 / 10) = Fin b"
    and e: "\<bar>b - 9 / 10\<bar> \<le> \<bar>9 / 10\<bar> / 1000 + 1 / 1000000"
    by (rule round_double_near)
  have "\<bar>9 / 10 :: rat\<bar> = 9 / 10" by simp
  with e have "89 / 100 \<le> b" "b \<le> 91 / 100" by linarith+
  with b show thesis by (intro that) (simp_all add: float_lit_def)
qed

lemma dominance_steps:
  "float_gt (Fin 1) (float_lit (9 / 10))"
  "\<not> float_gt (Fin (- 1)) (float_lit (9 / 10))"
  "\<not> float_gt (Fin 0) (float_lit (9 / 10))"
  by (rule float_lit_09, simp)+

text \<open>The segment judge of a detector with the default thresholds, on a short segment.\<close>

lemma judge_single_segment_default:
  assumes th: "canto_tolerance self = float_lit (1 / 100)" "swc_tolerance self = float_lit (1 / 100)"
      "canto_presence self = float_lit (3 / 100)" "swc_presence self = float_lit (3 / 100)"
    and L: "1 \<le> hant_length seg" "hant_length seg \<le> 16"
    and c: "int (re_count CANTO_FEATURE_RE seg) - int (re_count CANTO_EXCLUDE_RE seg) = c"
    and s: "int (re_count SWC_FEATURE_RE seg) - int (re_count SWC_EXCLUDE_RE seg) = s"
  shows "c = 0 \<Longrightarrow> s = 0 \<Longrightarrow> judge_single_segment self seg = Inr ''Neutral''"
    and "0 < c \<Longrightarrow> s = 0 \<Longrightarrow> judge_single_segment self seg = Inr ''Cantonese''"
    and "c = 0 \<Longrightarrow> 0 < s \<Longrightarrow> judge_single_segment self seg = Inr ''SWC''"
  unfolding judge_single_segment_steps th c s default_floor [OF L] default_ceil [OF L]
  by (simp_all add: int_truediv_self int_truediv_0 dominance_steps)


lemmas table_defs = CANTO_FEATURE_RE_def CANTO_EXCLUDE_RE_def SWC_FEATURE_RE_def
  SWC_EXCLUDE_RE_def ALL_HAN_RE_def

lemma default_thresholds:
  "canto_tolerance (CantoneseDetector\<lparr>split_seg := a, get_quote := b\<rparr>) = float_lit (1 / 100)"
  "swc_tolerance (CantoneseDetector\<lparr>split_seg := a, get_quote := b\<rparr>) = float_lit (1 / 100)"
  "canto_presence (CantoneseDetector\<lparr>split_seg := a, get_quote := b\<rparr>) = float_lit (3 / 100)"
  "swc_presence (CantoneseDetector\<lparr>split_seg := a, get_quote := b\<rparr>) = float_lit (3 / 100)"
  by (simp_all add: CantoneseDetector_def)

lemma default_finite:
  "is_finite (canto_tolerance (CantoneseDetector\<lparr>split_seg := a, get_quote := b\<rparr>))"
  "is_finite (swc_tolerance (CantoneseDetector\<lparr>split_seg := a, get_quote := b\<rparr>))"
  by (simp_all add: default_thresholds float_lit_finite)


subsection \<open>Products and quotients that stay in range\<close>

lemma round_double_bound:
  assumes "\<bar>x\<bar> \<le> 2 ^ 1023"
  obtains r where "round_double x = Fin r" and "\<bar>r\<bar> \<le> 2 * \<bar>x\<bar> + 1"
proof -
  from assms obtain r where r: "round_double x = Fin r"
    and e: "\<bar>r - x\<bar> \<le> \<bar>x\<bar> / 1000 + 1 / 1000000"
    by (rule round_double_near)
  from e have "\<bar>r\<bar> \<le> 2 * \<bar>x\<bar> + 1" by linarith
  with r show thesis by (rule that)
qed

lemma of_int_abs_le: "\<bar>n\<bar> \<le> m \<Longrightarrow> \<bar>of_int n :: rat\<bar> \<le> of_int m"
  by (metis of_int_abs of_int_le_iff)

lemma divide_abs_le:
  fixes x y :: rat
  assumes "1 \<le> \<bar>y\<bar>"
  shows "\<bar>x / y\<bar> \<le> \<bar>x\<bar>"
proof -
  have "\<bar>x\<bar> / \<bar>y\<bar> \<le> \<bar>x\<bar> / 1"
    by (rule divide_left_mono) (use assms in simp_all)
  then show ?thesis by (simp add: abs_divide)
qed

lemma float_of_int_ok:
  assumes "\<bar>n\<bar> \<le> 2 ^ 64"
  obtains y where "float_of_int n = Inr (Fin y)" and "\<bar>y\<bar> \<le> 2 ^ 66"
proof -
  have a: "\<bar>of_int n :: rat\<bar> \<le> 2 ^ 64"
    using of_int_abs_le [OF assms] by simp
  then have "\<bar>of_int n :: rat\<bar> \<le> 2 ^ 1023" by simp
  then obtain y where y: "round_double (of_int n) = Fin y" and b: "\<bar>y\<bar> \<le> 2 * \<bar>of_int n :: rat\<bar> + 1"
    by (rule round_double_bound)
  from a b have "\<bar>y\<bar> \<le> 2 ^ 66" by simp
  with y show thesis by (intro that) (simp_all add: float_of_int_def)
qed

lemma float_mul_int_ok:
  assumes "threshold_ok t" and "\<bar>n\<bar> \<le> 2 ^ 64"
  obtains r where "float_mul_int t n = Inr (Fin r)"
proof -
  from assms(1) obtain a where t: "t = Fin a" and a: "\<bar>a\<bar> \<le> 2 ^ 900"
    by (auto simp: threshold_ok_def split: pyfloat.splits)
  from assms(2) obtain y where y: "float_of_int n = Inr (Fin y)" and b: "\<bar>y\<bar> \<le> 2 ^ 66"
    by (rule float_of_int_ok)
  have "\<bar>a * y\<bar> \<le> 2 ^ 900 * 2 ^ 66"
    unfolding abs_mult using a b by (intro mult_mono) simp_all
  also have "\<dots> \<le> (2::rat) ^ 1023" by simp
  finally obtain r where "round_double (a * y) = Fin r"
    using round_double_finite by blast
  then have "float_mul_int t n = Inr (Fin r)"
    by (simp add: float_mul_int_def t y)
  then show thesis by (rule that)
qed

lemma times_floor_ok:
  assumes "threshold_ok t" and "\<bar>n\<bar> \<le> 2 ^ 64"
  shows "\<exists>k. raise_bind (float_mul_int t n) math_floor = Inr k"
    and "\<exists>k. raise_bind (float_mul_int t n) math_ceil = Inr k"
  using float_mul_int_ok [OF assms] by (metis math_floor.simps(1) raise_bind_simps(2),
      metis math_ceil.simps(1) raise_bind_simps(2))

lemma int_truediv_ok:
  assumes "b \<noteq> 0" and "\<bar>a\<bar> \<le> 2 ^ 64"
  shows "\<exists>r. int_truediv a b = Inr (Fin r)"
proof -
  have "\<bar>of_int a :: rat\<bar> \<le> 2 ^ 64"
    using of_int_abs_le [OF assms(2)] by simp
  moreover have "1 \<le> \<bar>of_int b :: rat\<bar>"
    using assms(1) by (simp flip: of_int_abs)
  ultimately have "\<bar>of_int a / of_int b :: rat\<bar> \<le> 2 ^ 64"
    using divide_abs_le [of "of_int b" "of_int a"] by linarith
  then have "\<bar>of_int a / of_int b :: rat\<bar> \<le> 2 ^ 1023" by simp
  then obtain r where "round_double (of_int a / of_int b) = Fin r"
    using round_double_finite by blast
  then show ?thesis using assms(1) by (simp add: int_truediv_def)
qed


subsection \<open>The judge returns a label\<close>

lemma count_diff_bound:
  fixes a b n :: nat
  assumes "a \<le> n" "b \<le> n" "n \<le> 2 ^ 63"
  shows "\<bar>int a - int b\<bar> \<le> 2 ^ 64"
proof -
  have "\<bar>int a - int b\<bar> \<le> int n" using assms by linarith
  also have "int n \<le> 2 ^ 63" using assms(3) by (metis of_nat_le_iff of_nat_numeral of_nat_power)
  finally show ?thesis by simp
qed

lemma judge_single_segment_total:
  assumes ok: "thresholds_ok self" and len: "length seg \<le> 2 ^ 63"
  shows "\<exists>label. judge_single_segment self seg = Inr label \<and> label \<in> set segment_labels"
proof -
  define c where "c = int (re_count CANTO_FEATURE_RE seg) - int (re_count CANTO_EXCLUDE_RE seg)"
  define s where "s = int (re_count SWC_FEATURE_RE seg) - int (re_count SWC_EXCLUDE_RE seg)"
  define L where "L = hant_length seg"
  have c: "\<bar>c\<bar> \<le> 2 ^ 64" unfolding c_def
    by (rule count_diff_bound [OF re_count_le re_count_le len])
  have s: "\<bar>s\<bar> \<le> 2 ^ 64" unfolding s_def
    by (rule count_diff_bound [OF re_count_le re_count_le len])
  have L: "\<bar>L\<bar> \<le> 2 ^ 64"
    using count_diff_bound [OF re_count_le le0 len, of ALL_HAN_RE]
    by (simp add: L_def hant_length_def)
  from ok have t: "threshold_ok (canto_tolerance self)" "threshold_ok (swc_tolerance self)"
    "threshold_ok (canto_presence self)" "threshold_ok (swc_presence self)"
    by (simp_all add: thresholds_ok_def)
  obtain fs fc pc ps where
    fs: "raise_bind (float_mul_int (swc_tolerance self) L) math_floor = Inr fs" and
    fc: "raise_bind (float_mul_int (canto_tolerance self) L) math_floor = Inr fc" and
    pc: "raise_bind (float_mul_int (canto_presence self) L) math_ceil = Inr pc" and
    ps: "raise_bind (float_mul_int (swc_presence self) L) math_ceil = Inr ps"
    using times_floor_ok(1) [OF t(2) L] times_floor_ok(1) [OF t(1) L]
      times_floor_ok(2) [OF t(3) L] times_floor_ok(2) [OF t(4) L] by blast
  note steps = judge_single_segment_steps [of self seg, folded c_def s_def L_def]
  show ?thesis
  proof (cases "c + s = 0")
    case True
    then show ?thesis by (simp add: steps fs fc segment_labels_def)
  next
    case False
    from int_truediv_ok [OF False c] obtain dc where dc: "int_truediv c (c + s) = Inr (Fin dc)" ..
    from int_truediv_ok [OF False s] obtain ds where ds: "int_truediv s (c + s) = Inr (Fin ds)" ..
    show ?thesis by (simp add: steps fs fc pc ps dc ds segment_labels_def)
  qed
qed

lemma raise_map_total:
  assumes "\<And>x. x \<in> set xs \<Longrightarrow> \<exists>y. f x = Inr y \<and> y \<in> S"
  shows "\<exists>ys. raise_map f xs = Inr ys \<and> set ys \<subseteq> S \<and> length ys = length xs"
  using assms
proof (induction xs)
  case Nil
  then show ?case by simp
next
  case (Cons x xs)
  from Cons.prems [of x] obtain y where y: "f x = Inr y" "y \<in> S" by auto
  from Cons.IH Cons.prems obtain ys where "raise_map f xs = Inr ys" "set ys \<subseteq> S"
    "length ys = length xs" by auto
  with y show ?case by simp
qed

lemma float_lit_95_ok: "threshold_ok (float_lit (19 / 20))"
proof -
  have "\<bar>19 / 20 :: rat\<bar> \<le> 2 ^ 1023" by simp
  then obtain r where "round_double (19 / 20) = Fin r" "\<bar>r\<bar> \<le> 2 * \<bar>19 / 20 :: rat\<bar> + 1"
    by (rule round_double_bound)
  then show ?thesis by (simp add: threshold_ok_def float_lit_def)
qed

lemma judge_segments_total:
  assumes ok: "thresholds_ok self" and len: "length document < 2 ^ 63"
  shows "\<exists>label. judge_segments self document = Inr label \<and> label \<in> set segment_labels"
proof -
  define segments where
    "segments = filter (\<lambda>x. str_strip x \<noteq> []) (re_split ALL_DELIMITERS_RE document)"
  have "\<And>x. x \<in> set segments \<Longrightarrow>
      \<exists>y. judge_single_segment self x = Inr y \<and> y \<in> set segment_labels"
  proof -
    fix x assume "x \<in> set segments"
    then have "x \<in> set (re_split ALL_DELIMITERS_RE document)" by (simp add: segments_def)
    then have "sublist x document" by (rule re_split_sublist)
    then have "length x \<le> length document" by (rule sublist_length_le)
    with len have "length x \<le> 2 ^ 63" by simp
    with ok show "\<exists>y. judge_single_segment self x = Inr y \<and> y \<in> set segment_labels"
      by (rule judge_single_segment_total)
  qed
  then obtain js where js: "raise_map (judge_single_segment self) segments = Inr js"
    and n: "length js = length segments"
    using raise_map_total by blast
  have "length segments \<le> length (re_split ALL_DELIMITERS_RE document)"
    by (simp add: segments_def)
  also have "\<dots> \<le> Suc (length document)" by (rule re_split_length)
  also have "\<dots> \<le> 2 ^ 63" using len by simp
  finally have "length js \<le> 2 ^ 63" by (simp add: n)
  then have "\<bar>int (length js)\<bar> \<le> 2 ^ 64"
    using count_diff_bound [of "length js" "length js" 0] by simp
  from times_floor_ok(2) [OF float_lit_95_ok this] obtain k where
    k: "raise_bind (float_mul_int (float_lit (19 / 20)) (int (length js))) math_ceil = Inr k" ..
  show ?thesis
    unfolding judge_segments_def Let_def segments_def [symmetric]
    by (simp add: js Counter_sum raise_bind_assoc [symmetric] k segment_labels_def)
qed


lemma judge_document_total:
  assumes "thresholds_ok self" and "length document < 2 ^ 63"
  shows "\<exists>label. judge_document self document = Inr label \<and> label \<in> set segment_labels"
  using judge_segments_total [OF assms] judge_single_segment_total [OF assms(1), of document] assms(2)
  by (simp add: judge_document_def)

lemma judge_matrix_quotes_total:
  assumes ok: "thresholds_ok self" and len: "length document < 2 ^ 63"
  shows "\<exists>label. judge_matrix_quotes self document = Inr label \<and> label \<in> set all_labels"
proof -
  obtain matrix quotes where sq: "separate_quotes document = (matrix, quotes)"
    by (cases "separate_quotes document")
  note l = separate_quotes_length [OF sq]
  have lm: "length matrix < 2 ^ 63" and lq: "length quotes < 2 ^ 63"
    using l len by simp_all
  have "length (re_sub ALL_QUOTEMARKS_RE [] quotes) \<le> length quotes"
    by (rule re_sub_length) simp
  with lq have ls: "length (re_sub ALL_QUOTEMARKS_RE [] quotes) < 2 ^ 63" by simp
  from judge_document_total [OF ok lm] obtain mJ where
    mJ: "judge_document self matrix = Inr mJ" "mJ \<in> set segment_labels" by blast
  from judge_document_total [OF ok lq] obtain qJ where
    qJ: "judge_document self quotes = Inr qJ" "qJ \<in> set segment_labels" by blast
  from judge_document_total [OF ok ls] obtain sJ where
    sJ: "judge_document self (re_sub ALL_QUOTEMARKS_RE [] quotes) = Inr sJ"
      "sJ \<in> set segment_labels" by blast
  show ?thesis
    using mJ qJ sJ
    by (simp add: judge_matrix_quotes_def sq all_labels_def) (auto simp: segment_labels_def)
qed

lemma round_double_overflow: "round_double (2 ^ 1023 * 2) = PosInf"
proof -
  define x :: rat where "x = 2 ^ 1023 * 2"
  have x: "x = 2 powi 1024" by (simp add: x_def)
  have x0: "x \<noteq> 0" "0 < x" "\<bar>x\<bar> = x" by (simp_all add: x_def)
  then obtain e v where e: "e = max (ilog2 \<bar>x\<bar> - 52) (- 1074)"
    and v: "v = of_int (round_half_even (\<bar>x\<bar> / 2 powi e)) * 2 powi e"
    and rd: "round_double x =
       (if 2 ^ 1024 \<le> v then (if 0 < x then PosInf else NegInf)
        else Fin (if 0 < x then v else - v))"
    using round_double_magnitude [of x] by metis
  have "ilog2 x = 1024"
    by (rule ilog2_unique) (simp_all only: x powi2_le_iff powi2_less_iff x0, simp_all add: x0 x [symmetric])
  then have e': "e = 972" by (simp add: e x0)
  have "x / 2 powi 972 = 2 powi (1024 - 972)"
    unfolding x by (subst power_int_diff) simp_all
  also have "\<dots> = of_int (2 ^ 52)" by simp
  finally have "round_half_even (x / 2 powi 972) = 2 ^ 52"
    by (simp only: round_half_even_of_int)
  then have "v = of_int (2 ^ 52) * 2 powi 972" by (simp add: v e' x0)
  also have "\<dots> = 2 powi 52 * 2 powi 972" by simp
  also have "\<dots> = 2 powi (52 + 972)" by (subst power_int_add) simp_all
  also have "\<dots> = 2 powi 1024" by simp
  finally have "v = 2 ^ 1024" by simp
  then show ?thesis using rd x0 by (simp add: x_def)
qed

lemma default_thresholds_ok:
  "thresholds_ok (CantoneseDetector\<lparr>split_seg := a, get_quote := b\<rparr>)"
proof -
  have "\<And>q::rat. \<bar>q\<bar> \<le> 1 \<Longrightarrow> threshold_ok (float_lit q)"
  proof -
    fix q :: rat assume q: "\<bar>q\<bar> \<le> 1"
    then have "\<bar>q\<bar> \<le> 2 ^ 1023" by simp
    then obtain r where "round_double q = Fin r" "\<bar>r\<bar> \<le> 2 * \<bar>q\<bar> + 1"
      by (rule round_double_bound)
    with q show "threshold_ok (float_lit q)" by (simp add: threshold_ok_def float_lit_def)
  qed
  then show ?thesis by (simp add: thresholds_ok_def default_thresholds)
qed
section \<open>Texts in which no feature is found\<close>


lemma cword_prefix_length: "cword_prefix w s \<Longrightarrow> length w \<le> length s"
  by (induction w s rule: cword_prefix.induct) simp_all











subsection \<open>Where a pattern without \<open>*\<close> has no match\<close>




subsection \<open>The feature and exclusion patterns\<close>












subsection \<open>The judgement of a text without features\<close>







section \<open>The segment judge\<close>

text \<open>
  Claim C1. For every segment, the segment judge returns a label by exactly the
  algorithm of section 4.2: with the net feature counts \<open>canto_count\<close> and \<open>swc_count\<close>
  and the Han length \<open>L\<close>, Neutral if the counts sum to zero or if both are within
  \<open>floor(tolerance \<times> L)\<close>; otherwise Cantonese if \<open>canto_count/total - swc_count/total
  > 0.9\<close> and not \<open>swc_count \<ge> ceil(swc_presence \<times> L)\<close>, SWC in the mirrored case, and
  Mixed in every remaining case. The judge returns the label \<open>label\<close> exactly when the
  algorithm yields it; where the algorithm's arithmetic has no value, the judge returns
  no label.
\<close>

theorem segment_judge_algorithm:
  "(judge_single_segment self seg = Inr label) =
   (segment_judge_spec self
      (int (re_count CANTO_FEATURE_RE seg) - int (re_count CANTO_EXCLUDE_RE seg))
      (int (re_count SWC_FEATURE_RE seg) - int (re_count SWC_EXCLUDE_RE seg))
      (hant_length seg) = Some label)"
proof -
  define c where "c = int (re_count CANTO_FEATURE_RE seg) - int (re_count CANTO_EXCLUDE_RE seg)"
  define s where "s = int (re_count SWC_FEATURE_RE seg) - int (re_count SWC_EXCLUDE_RE seg)"
  define L where "L = hant_length seg"
  define fs where "fs = raise_bind (float_mul_int (swc_tolerance self) L) math_floor"
  define fc where "fc = raise_bind (float_mul_int (canto_tolerance self) L) math_floor"
  define pc where "pc = raise_bind (float_mul_int (canto_presence self) L) math_ceil"
  define ps where "ps = raise_bind (float_mul_int (swc_presence self) L) math_ceil"
  define dc where "dc = int_truediv c (c + s)"
  define ds where "ds = int_truediv s (c + s)"
  note code = judge_single_segment_steps [of self seg, folded c_def s_def L_def,
      folded fs_def fc_def pc_def ps_def dc_def ds_def]
  have spec: "segment_judge_spec self c s L =
      (case fc of Inl _ \<Rightarrow> None | Inr canto_tol \<Rightarrow>
       case fs of Inl _ \<Rightarrow> None | Inr swc_tol \<Rightarrow>
       if c + s = 0 \<or> (c \<le> canto_tol \<and> s \<le> swc_tol) then Some ''Neutral''
       else
         case pc of Inl _ \<Rightarrow> None | Inr canto_min \<Rightarrow>
         case ps of Inl _ \<Rightarrow> None | Inr swc_min \<Rightarrow>
         case dc of Inl _ \<Rightarrow> None | Inr x \<Rightarrow>
         case ds of Inl _ \<Rightarrow> None | Inr y \<Rightarrow>
         if float_gt (float_sub x y) (float_lit (9 / 10)) \<and> \<not> swc_min \<le> s
         then Some ''Cantonese''
         else if float_gt (float_sub y x) (float_lit (9 / 10)) \<and> \<not> canto_min \<le> c
         then Some ''SWC'' else Some ''Mixed'')"
    unfolding segment_judge_spec_def times_floor_alt times_ceil_alt dominance_def Let_def
      fs_def [symmetric] fc_def [symmetric] pc_def [symmetric] ps_def [symmetric]
      add.commute [of s c] dc_def [symmetric] ds_def [symmetric]
    by (cases fc; cases fs; simp; cases pc; cases ps; simp; cases dc; cases ds; simp)
  show ?thesis
    unfolding c_def [symmetric] s_def [symmetric] L_def [symmetric] code spec
    by (cases fs; cases fc; simp; cases pc; cases ps; simp; cases dc; cases ds; simp)
qed

text \<open>
  Claim C8. In the segment judge the divisions by \<open>total = canto_count + swc_count\<close> are
  never divisions by zero, for any segment and any thresholds: a zero total returns Neutral
  before step 4. \<open>int_truediv\<close> raises \<open>ZeroDivisionError\<close> exactly on a zero divisor
  and nothing else in the judge raises it, so the property is that the judge never raises
  \<open>ZeroDivisionError\<close>. The counts are integers of either sign here.
\<close>

theorem no_division_by_zero:
  "judge_single_segment self seg \<noteq> Inl ZeroDivisionError"
  unfolding judge_single_segment_steps
  by (simp add: raise_bind_eq_Inl no_zero_division_steps int_truediv_zero_division)

section \<open>The segment aggregator\<close>

text \<open>
  Claim C2. For every document, the segment aggregator splits it on the delimiter pattern,
  discards the whitespace-only pieces, judges each remaining piece with the segment judge,
  sets \<open>threshold = ceil(0.95 \<times> number of judged pieces)\<close> and returns the first
  satisfied of: Neutral if \<open>neutral_count \<ge> threshold\<close>, Cantonese if
  \<open>cantonese_count + neutral_count \<ge> threshold\<close>, SWC if \<open>swc_count + neutral_count \<ge>
  threshold\<close>, else Mixed. The source filters on \<open>x.strip()\<close> and counts with a
  \<open>Counter\<close>; the specification's wording counts the labels in the list.
\<close>

theorem segment_aggregator_algorithm:
  "(judge_segments self document = Inr label) =
   (segment_aggregator_spec self document = Some label)"
proof -
  define pieces where
    "pieces = filter (\<lambda>p. \<not> whitespace_only p) (re_split ALL_DELIMITERS_RE document)"
  define js where "js = raise_map (judge_single_segment self) pieces"
  have code: "judge_segments self document =
      raise_bind js (\<lambda>labels.
      raise_bind (raise_bind (float_mul_int (float_lit (19 / 20)) (int (length labels))) math_ceil)
        (\<lambda>threshold.
          if threshold \<le> int (count_list labels ''Neutral'') then Inr ''Neutral''
          else if threshold \<le> int (count_list labels ''Cantonese'' + count_list labels ''Neutral'')
          then Inr ''Cantonese''
          else if threshold \<le> int (count_list labels ''SWC'' + count_list labels ''Neutral'')
          then Inr ''SWC'' else Inr ''Mixed''))"
    unfolding judge_segments_def Let_def str_strip_empty_iff Counter_get Counter_sum
      pieces_def js_def raise_bind_assoc
    by (rule refl)
  show ?thesis
    unfolding code segment_aggregator_spec_def Let_def pieces_def [symmetric] js_def [symmetric]
      aggregate_spec_def times_ceil_alt
    by (cases js; simp split: sum.splits)
qed


section \<open>The reconciler\<close>

text \<open>
  Claim C3. With quote separation on, a matrix that is not the placeholder alone and a
  non-empty quotes string, the reconciler judges matrix and quotes independently, to
  \<open>mJ\<close> and \<open>qJ\<close>, and returns \<open>mJ\<close> if they are equal, \<open>qJ\<close> if \<open>mJ\<close> is Neutral,
  \<open>mJ\<close> if \<open>qJ\<close> is Neutral, CantoneseQuotesInSWC for SWC with Cantonese quotes,
  MixedQuotesInSWC for SWC with Mixed quotes, and Mixed for every other pair, a Cantonese
  matrix with SWC quotes among them.
\<close>

theorem reconciler_table:
  assumes "get_quote self"
    and "separate_quotes document = (matrix, quotes)"
    and "matrix \<noteq> ELLIPSIS" and "quotes \<noteq> []"
    and "judge_document self matrix = Inr mJ"
    and "judge_document self quotes = Inr qJ"
  shows "judge self document = Inr (reconcile_spec mJ qJ) \<and>
         (mJ = ''Cantonese'' \<and> qJ = ''SWC'' \<longrightarrow> judge self document = Inr ''Mixed'')"
  using assms by (simp add: judge_def judge_matrix_quotes_def reconcile_spec_def)

text \<open>
  The witness: \<open>U+4ED6 U+8AAA\<close> (SWC narration) followed by the quoted \<open>U+4F62 U+54CB\<close>
  (Cantonese), judged by the default detector with quote separation on.
\<close>

theorem reconciler_table_witness:
  "get_quote (CantoneseDetector\<lparr>get_quote := True\<rparr>) \<and>
   separate_quotes [0x4ED6, 0x8AAA, 0x300C, 0x4F62, 0x54CB, 0x300D] =
     ([0x4ED6, 0x8AAA, 0x2026], [0x4F62, 0x54CB]) \<and>
   judge_document (CantoneseDetector\<lparr>get_quote := True\<rparr>) [0x4ED6, 0x8AAA, 0x2026] = Inr ''SWC'' \<and>
   judge_document (CantoneseDetector\<lparr>get_quote := True\<rparr>) [0x4F62, 0x54CB] = Inr ''Cantonese'' \<and>
   judge (CantoneseDetector\<lparr>get_quote := True\<rparr>) [0x4ED6, 0x8AAA, 0x300C, 0x4F62, 0x54CB, 0x300D] =
     Inr ''CantoneseQuotesInSWC''"
proof -
  let ?D = "CantoneseDetector\<lparr>get_quote := True\<rparr>"
  have th: "canto_tolerance ?D = float_lit (1 / 100)" "swc_tolerance ?D = float_lit (1 / 100)"
    "canto_presence ?D = float_lit (3 / 100)" "swc_presence ?D = float_lit (3 / 100)"
    by (simp_all add: CantoneseDetector_def)
  have q: "get_quote ?D" and ns: "\<not> split_seg ?D" by (simp_all add: CantoneseDetector_def)
  have sq: "separate_quotes [0x4ED6, 0x8AAA, 0x300C, 0x4F62, 0x54CB, 0x300D] =
      ([0x4ED6, 0x8AAA, 0x2026], [0x4F62, 0x54CB])"
    by (simp add: separate_quotes_def re_sub_def re_findall_groups_def ALL_QUOTEMARKS_RE_def
        ELLIPSIS_def re_scan.simps)
  have m: "judge_document ?D [0x4ED6, 0x8AAA, 0x2026] = Inr ''SWC''"
    unfolding judge_document_def using ns
    by (simp only: if_False)
      (rule judge_single_segment_default(3) [OF th, where c = 0 and s = 2];
        simp add: hant_length_def re_count_def re_scan.simps ALL_HAN_RE_def CANTO_FEATURE_RE_def
          CANTO_EXCLUDE_RE_def SWC_FEATURE_RE_def SWC_EXCLUDE_RE_def)
  have qj: "judge_document ?D [0x4F62, 0x54CB] = Inr ''Cantonese''"
    unfolding judge_document_def using ns
    by (simp only: if_False)
      (rule judge_single_segment_default(2) [OF th, where c = 2 and s = 0];
        simp add: hant_length_def re_count_def re_scan.simps ALL_HAN_RE_def CANTO_FEATURE_RE_def
          CANTO_EXCLUDE_RE_def SWC_FEATURE_RE_def SWC_EXCLUDE_RE_def)
  have ne: "[0x4ED6, 0x8AAA, 0x2026] \<noteq> ELLIPSIS" "[0x4F62, 0x54CB] \<noteq> ([] :: ustring)"
    by (simp_all add: ELLIPSIS_def)
  show ?thesis
    using reconciler_table [OF q sq ne m qj] q sq m qj
    by (simp add: reconcile_spec_def)
qed

section \<open>The empty document\<close>




section \<open>The quote separator on a text without quotes\<close>

text \<open>
  Claim C9. For every document in which the quote-pair pattern finds no match, the quote
  separator returns the document itself as the matrix and the empty string as the quotes.
\<close>

theorem separate_quotes_identity:
  assumes "re_count ALL_QUOTEMARKS_RE document = 0"
  shows "separate_quotes document = (document, [])"
  using no_match_tokens [of "re_scan ALL_QUOTEMARKS_RE document" ELLIPSIS] assms
  by (simp add: separate_quotes_def re_sub_def re_findall_groups_def re_count_def)

text \<open>The witness: an opening mark that is never closed, \<open>U+300C U+4F60 U+597D\<close>.\<close>

theorem separate_quotes_identity_witness:
  "re_count ALL_QUOTEMARKS_RE [0x300C, 0x4F60, 0x597D] = 0 \<and>
   separate_quotes [0x300C, 0x4F60, 0x597D] = ([0x300C, 0x4F60, 0x597D], [])"
proof -
  have h: "re_count ALL_QUOTEMARKS_RE [0x300C, 0x4F60, 0x597D] = 0"
    by (simp add: re_count_def ALL_QUOTEMARKS_RE_def re_scan.simps)
  show ?thesis using h separate_quotes_identity [OF h] by simp
qed

section \<open>The quote pattern\<close>

text \<open>
  Claim C6, as the specification states it: the quote separator recognizes exactly four
  bracket styles, each matched non-greedily. The source's pattern has five alternatives,
  and \<open>[^op]*\<close> is greedy: in \<open>U+300C a U+300D b U+300D\<close> the span runs to the second
  closing mark, where a non-greedy match would end at the first and leave \<open>b U+300D\<close> in
  the matrix. Each of the five styles is recognized below, and the greedy span is shown.
\<close>

theorem quote_styles_counterexample:
  "separate_quotes [0x300C, 0x61, 0x300D] = (ELLIPSIS, [0x61]) \<and>
   separate_quotes [0x201C, 0x61, 0x201D] = (ELLIPSIS, [0x61]) \<and>
   separate_quotes [0x300A, 0x61, 0x300B] = (ELLIPSIS, [0x61]) \<and>
   separate_quotes [0x3010, 0x61, 0x3011] = (ELLIPSIS, [0x61]) \<and>
   separate_quotes [0x300E, 0x61, 0x300F] = (ELLIPSIS, [0x61]) \<and>
   separate_quotes [0x300C, 0x61, 0x300D, 0x62, 0x300D] = (ELLIPSIS, [0x61, 0x300D, 0x62]) \<and>
   separate_quotes [0x300C, 0x61, 0x300D, 0x62, 0x300D] \<noteq> ([0x2026, 0x62, 0x300D], [0x61])"
  by (simp add: separate_quotes_def re_sub_def re_findall_groups_def ALL_QUOTEMARKS_RE_def
      ELLIPSIS_def re_scan.simps)

text \<open>
  Claim C6, amended. The quote separator recognizes exactly five bracket styles. A match
  starts at an opening mark \<open>op\<close> of a style and ends at the matching closing mark \<open>cl\<close>;
  its content \<open>g\<close> never holds \<open>op\<close> (no nesting within the style) and the match is greedy:
  it ends at the last \<open>cl\<close> before the next \<open>op\<close>, so that no \<open>cl\<close> follows before another
  \<open>op\<close>. Conversely every such span is matched, whatever else it holds: marks of the
  other styles, and closing marks of its own.
\<close>

theorem quote_pair_matching:
  "length quote_styles = 5 \<and> distinct (map fst quote_styles) \<and>
   ALL_QUOTEMARKS_RE = Alt (map quote_style_rx quote_styles) \<and>
   (\<forall>s g t rest. rx_match ALL_QUOTEMARKS_RE s = (g, t) # rest \<longrightarrow>
      (\<exists>op cl. (op, cl) \<in> set quote_styles \<and> s = op # g @ cl # t \<and> op \<notin> set g \<and>
         cl \<notin> set (takeWhile (\<lambda>c. c \<noteq> op) t))) \<and>
   (\<forall>op cl g t. (op, cl) \<in> set quote_styles \<longrightarrow> op \<notin> set g \<longrightarrow>
      cl \<notin> set (takeWhile (\<lambda>c. c \<noteq> op) t) \<longrightarrow>
      (\<exists>rest. rx_match ALL_QUOTEMARKS_RE (op # g @ cl # t) = (g, t) # rest))"
proof (intro conjI allI impI)
  show "length quote_styles = 5" "distinct (map fst quote_styles)"
    by (simp_all add: quote_styles_def)
  show "ALL_QUOTEMARKS_RE = Alt (map quote_style_rx quote_styles)"
    by (rule quotemarks_styles)
next
  fix s g t rest
  assume "rx_match ALL_QUOTEMARKS_RE s = (g, t) # rest"
  then show "\<exists>op cl. (op, cl) \<in> set quote_styles \<and> s = op # g @ cl # t \<and> op \<notin> set g \<and>
         cl \<notin> set (takeWhile (\<lambda>c. c \<noteq> op) t)"
    by (rule quote_match_head)
next
  fix op cl g t
  assume "(op, cl) \<in> set quote_styles" "op \<notin> set g"
    "cl \<notin> set (takeWhile (\<lambda>c. c \<noteq> op) t)"
  then show "\<exists>rest. rx_match ALL_QUOTEMARKS_RE (op # g @ cl # t) = (g, t) # rest"
    by (rule quote_span_matched)
qed

text \<open>
  The witness: a corner-bracket span holding a white-corner-bracket pair and a closing
  corner bracket of its own.
\<close>

theorem quote_pair_matching_witness:
  "(0x300C, 0x300D) \<in> set quote_styles \<and>
   0x300C \<notin> set [0x4F60, 0x300E, 0x597D, 0x300F, 0x300D, 0x5417 :: nat] \<and>
   0x300D \<notin> set (takeWhile (\<lambda>c. c \<noteq> 0x300C) [0x3002 :: nat]) \<and>
   (\<exists>rest. rx_match ALL_QUOTEMARKS_RE
      (0x300C # [0x4F60, 0x300E, 0x597D, 0x300F, 0x300D, 0x5417] @ 0x300D # [0x3002]) =
      ([0x4F60, 0x300E, 0x597D, 0x300F, 0x300D, 0x5417], [0x3002]) # rest)"
proof -
  have 1: "(0x300C, 0x300D) \<in> set quote_styles" by (simp add: quote_styles_def)
  have 2: "0x300C \<notin> set [0x4F60, 0x300E, 0x597D, 0x300F, 0x300D, 0x5417 :: nat]" by simp
  have 3: "0x300D \<notin> set (takeWhile (\<lambda>c. c \<noteq> 0x300C) [0x3002 :: nat])" by simp
  from quote_pair_matching 1 2 3 show ?thesis by blast
qed

section \<open>A document that is one quoted span\<close>

text \<open>
  Claim C5, as the specification states it: when the matrix is the placeholder alone, the
  reconciler judges the de-quoted content of the span with the placeholder markers
  stripped. The source passes the quotes through \<open>ALL_QUOTEMARKS_RE.sub("", quotes)\<close>
  instead, which deletes every quote pair nested in the span together with its content and
  strips no placeholder. In \<open>U+300C U+300E U+5605 U+300F U+300D\<close> the whole content is a
  nested pair: the reconciler judges the empty string (Neutral), while the de-quoted
  content \<open>U+300E U+5605 U+300F\<close>, which holds no placeholder, is Cantonese.
\<close>

theorem whole_quote_counterexample:
  "separate_quotes [0x300C, 0x300E, 0x5605, 0x300F, 0x300D] = (ELLIPSIS, [0x300E, 0x5605, 0x300F]) \<and>
   judge_matrix_quotes (CantoneseDetector\<lparr>split_seg := False, get_quote := True\<rparr>)
     [0x300C, 0x300E, 0x5605, 0x300F, 0x300D] = Inr ''Neutral'' \<and>
   judge_document (CantoneseDetector\<lparr>split_seg := False, get_quote := True\<rparr>)
     (strip_placeholder [0x300E, 0x5605, 0x300F]) = Inr ''Cantonese''"
proof -
  let ?D = "CantoneseDetector\<lparr>split_seg := False, get_quote := True\<rparr>"
  have sq: "separate_quotes [0x300C, 0x300E, 0x5605, 0x300F, 0x300D] =
      (ELLIPSIS, [0x300E, 0x5605, 0x300F])"
    by (simp add: separate_quotes_def re_sub_def re_findall_groups_def ALL_QUOTEMARKS_RE_def
        ELLIPSIS_def re_scan.simps)
  have rs: "re_sub ALL_QUOTEMARKS_RE [] [0x300E, 0x5605, 0x300F] = []"
    by (simp add: re_sub_def ALL_QUOTEMARKS_RE_def re_scan.simps)
  have n: "judge_matrix_quotes ?D [0x300C, 0x300E, 0x5605, 0x300F, 0x300D] = Inr ''Neutral''"
    by (simp add: judge_matrix_quotes_def sq rs judge_document_def
        judge_single_segment_empty [OF default_finite])
  have sp: "strip_placeholder [0x300E, 0x5605, 0x300F] = [0x300E, 0x5605, 0x300F]"
    by (simp add: strip_placeholder_def ELLIPSIS_def)
  have c: "judge_single_segment ?D [0x300E, 0x5605, 0x300F] = Inr ''Cantonese''"
    by (rule judge_single_segment_default(2) [OF default_thresholds, where c = 1 and s = 0];
        simp add: hant_length_def re_count_def re_scan.simps table_defs)
  show ?thesis by (simp add: sq n sp judge_document_def c)
qed

text \<open>
  Claim C5, amended. For every document whose matrix is the placeholder alone (the
  document is then the placeholder character itself, or one quoted span of one of the
  five styles), the reconciler returns the label that the segment judge or the aggregator,
  according to the split-segment flag, gives to the quotes string after every quote pair
  matched in it has been deleted with its content; when no quote pair is matched in it,
  that is the label of the de-quoted content itself.
\<close>

theorem whole_quote_judgement:
  assumes "separate_quotes document = (matrix, quotes)" and "matrix = ELLIPSIS"
  shows "judge_matrix_quotes self document =
           judge_document self (re_sub ALL_QUOTEMARKS_RE [] quotes) \<and>
         ((document = ELLIPSIS \<and> quotes = []) \<or>
          (\<exists>op cl. (op, cl) \<in> set quote_styles \<and> document = op # quotes @ [cl] \<and>
             op \<notin> set quotes)) \<and>
         (re_count ALL_QUOTEMARKS_RE quotes = 0 \<longrightarrow>
            judge_matrix_quotes self document = judge_document self quotes)"
  using assms whole_quote_shape [OF assms]
  by (auto simp: judge_matrix_quotes_def re_sub_no_match)

text \<open>
  The witness: the document of the counterexample, and \<open>U+300C U+5605 U+300D\<close>, whose
  span nests no pair.
\<close>

theorem whole_quote_judgement_witness:
  "separate_quotes [0x300C, 0x300E, 0x5605, 0x300F, 0x300D] = (ELLIPSIS, [0x300E, 0x5605, 0x300F]) \<and>
   judge_matrix_quotes (CantoneseDetector\<lparr>split_seg := False, get_quote := True\<rparr>)
     [0x300C, 0x300E, 0x5605, 0x300F, 0x300D] =
   judge_document (CantoneseDetector\<lparr>split_seg := False, get_quote := True\<rparr>)
     (re_sub ALL_QUOTEMARKS_RE [] [0x300E, 0x5605, 0x300F]) \<and>
   separate_quotes [0x300C, 0x5605, 0x300D] = (ELLIPSIS, [0x5605]) \<and>
   re_count ALL_QUOTEMARKS_RE [0x5605] = 0 \<and>
   judge_matrix_quotes (CantoneseDetector\<lparr>split_seg := False, get_quote := True\<rparr>)
     [0x300C, 0x5605, 0x300D] =
   judge_document (CantoneseDetector\<lparr>split_seg := False, get_quote := True\<rparr>) [0x5605]"
proof -
  have 1: "separate_quotes [0x300C, 0x300E, 0x5605, 0x300F, 0x300D] =
      (ELLIPSIS, [0x300E, 0x5605, 0x300F])"
    by (simp add: separate_quotes_def re_sub_def re_findall_groups_def ALL_QUOTEMARKS_RE_def
        ELLIPSIS_def re_scan.simps)
  have 2: "separate_quotes [0x300C, 0x5605, 0x300D] = (ELLIPSIS, [0x5605])"
    by (simp add: separate_quotes_def re_sub_def re_findall_groups_def ALL_QUOTEMARKS_RE_def
        ELLIPSIS_def re_scan.simps)
  have 3: "re_count ALL_QUOTEMARKS_RE [0x5605] = 0"
    by (simp add: re_count_def ALL_QUOTEMARKS_RE_def re_scan.simps)
  let ?D = "CantoneseDetector\<lparr>split_seg := False, get_quote := True\<rparr>"
  from whole_quote_judgement [OF 1 refl, where self = ?D]
  have a: "judge_matrix_quotes ?D [0x300C, 0x300E, 0x5605, 0x300F, 0x300D] =
      judge_document ?D (re_sub ALL_QUOTEMARKS_RE [] [0x300E, 0x5605, 0x300F])"
    by (rule conjunct1)
  from whole_quote_judgement [OF 2 refl, where self = ?D] 3
  have b: "judge_matrix_quotes ?D [0x300C, 0x5605, 0x300D] = judge_document ?D [0x5605]"
    by blast
  from 1 a 2 3 b show ?thesis by (intro conjI)
qed

section \<open>Totality of the judgement\<close>

text \<open>
  Claim C4, as the specification states it: for every input and every configuration,
  \<open>judge\<close> returns one of the six labels and never raises. The four thresholds are
  floats that the caller chooses, and the segment judge passes
  \<open>swc_tolerance * length\<close> to \<open>math.floor\<close> (line 166), which raises on a value that
  is not finite: with the tolerance \<open>2^1023\<close>, a finite float, and a segment of two Han
  characters the product overflows to \<open>inf\<close> and \<open>math.floor\<close> raises
  \<open>OverflowError\<close>; with the tolerance \<open>nan\<close> it raises \<open>ValueError\<close>, on the empty
  document already.
\<close>

theorem judge_total_counterexample:
  "judge (CantoneseDetector\<lparr>swc_tolerance := Fin (2 ^ 1023)\<rparr>) [0x4E00, 0x4E00] =
     Inl OverflowError \<and>
   judge (CantoneseDetector\<lparr>swc_tolerance := NaN\<rparr>) [] = Inl ValueError"
proof -
  define t :: pyfloat where "t = Fin (2 ^ 1023)"
  have L: "hant_length [0x4E00, 0x4E00] = 2"
    by (simp add: hant_length_def re_count_def re_scan.simps ALL_HAN_RE_def)
  have two: "float_of_int 2 = Inr (Fin 2)"
    using float_of_int_small [of 2] by simp
  have m: "float_mul t (Fin 2) = PosInf"
    unfolding t_def by (simp only: float_mul.simps round_double_overflow)
  have 1: "judge_single_segment (CantoneseDetector\<lparr>swc_tolerance := t\<rparr>)
      [0x4E00, 0x4E00] = Inl OverflowError"
    unfolding judge_single_segment_steps L
    by (simp add: float_mul_int_def two m)
  have 2: "judge_single_segment (CantoneseDetector\<lparr>swc_tolerance := NaN\<rparr>) [] =
      Inl ValueError"
    unfolding judge_single_segment_steps
    by (simp add: float_mul_int_def)
  have "judge (CantoneseDetector\<lparr>swc_tolerance := t\<rparr>) [0x4E00, 0x4E00] =
     Inl OverflowError \<and>
   judge (CantoneseDetector\<lparr>swc_tolerance := NaN\<rparr>) [] = Inl ValueError"
    using 1 2 by (simp add: judge_def judge_document_def CantoneseDetector_def)
  then show ?thesis unfolding t_def .
qed

text \<open>
  Claim C4, amended. For every configuration whose four thresholds are finite floats of
  magnitude at most \<open>2^900\<close>, under every combination of the two flags, and for every
  input string of fewer than \<open>2^63\<close> characters, \<open>judge\<close> raises no error and returns
  one of the six labels Neutral, Cantonese, SWC, Mixed, CantoneseQuotesInSWC,
  MixedQuotesInSWC. The model has no loop that could fail to end: the result
  \<open>Inr label\<close> is the returned value.
\<close>

theorem judge_total:
  assumes "thresholds_ok self" and "length document < 2 ^ 63"
  shows "\<exists>label. judge self document = Inr label \<and> label \<in> set all_labels"
proof (cases "get_quote self")
  case True
  then show ?thesis using judge_matrix_quotes_total [OF assms] by (simp add: judge_def)
next
  case False
  then show ?thesis using judge_document_total [OF assms]
    by (auto simp: judge_def all_labels_def)
qed

text \<open>
  The witness: the default thresholds with both flags on, and a document with a quoted span,
  \<open>U+300C U+5605 U+300D U+7684\<close>.
\<close>

theorem judge_total_witness:
  "thresholds_ok (CantoneseDetector\<lparr>split_seg := True, get_quote := True\<rparr>) \<and>
   length [0x300C, 0x5605, 0x300D, 0x7684 :: nat] < 2 ^ 63 \<and>
   (\<exists>label. judge (CantoneseDetector\<lparr>split_seg := True, get_quote := True\<rparr>)
       [0x300C, 0x5605, 0x300D, 0x7684] = Inr label \<and> label \<in> set all_labels)"
proof -
  have 1: "thresholds_ok (CantoneseDetector\<lparr>split_seg := True, get_quote := True\<rparr>)"
    by (rule default_thresholds_ok)
  have 2: "length [0x300C, 0x5605, 0x300D, 0x7684 :: nat] < 2 ^ 63"
    by simp
  show ?thesis
    using judge_total [OF 1 2] 1 2 by blast
qed


section \<open>Documents without features\<close>





end
